theory Spec2Isabelle
  imports Main "HOL-Library.AList" "HOL-Library.Sublist"
begin

section \<open>Python strings\<close>

text \<open>
  A Python \<open>str\<close> is modelled as a \<open>string\<close> whose characters are the code points below
  256. The functions below are the \<open>str\<close> methods the source calls, with Python's results on
  such strings.
\<close>

definition is_space :: "char \<Rightarrow> bool" where
  \<comment> \<open>the characters \<open>str.strip()\<close> removes: TAB, LF, VT, FF, CR, FS, GS, RS, US, SPACE, NEL
      and the no-break space\<close>
  "is_space c = (of_char c \<in> {9, 10, 11, 12, 13, 28, 29, 30, 31, 32, 133, 160 :: nat})"

definition strip :: "string \<Rightarrow> string" where
  "strip s = rev (dropWhile is_space (rev (dropWhile is_space s)))"

fun startswith :: "string \<Rightarrow> string \<Rightarrow> bool" where
  "startswith s [] = True"
| "startswith [] (p # ps) = False"
| "startswith (c # cs) (p # ps) = (c = p \<and> startswith cs ps)"

fun contains :: "string \<Rightarrow> string \<Rightarrow> bool" where
  \<comment> \<open>\<open>sub in s\<close>\<close>
  "contains [] sub = (sub = [])"
| "contains (c # cs) sub = (startswith (c # cs) sub \<or> contains cs sub)"

function remove_all :: "string \<Rightarrow> string \<Rightarrow> string" where
  \<comment> \<open>\<open>s.replace(old, "")\<close>: the occurrences of \<open>old\<close> are removed from left to right\<close>
  "remove_all old [] = []"
| "remove_all old (c # cs) =
     (if old \<noteq> [] \<and> startswith (c # cs) old
      then remove_all old (drop (length old) (c # cs))
      else c # remove_all old cs)"
  by pat_completeness auto
termination
  by (relation "measure (\<lambda>(old, s). length s)") auto

fun split_on :: "char \<Rightarrow> string \<Rightarrow> string list" where
  \<comment> \<open>\<open>s.split(sep)\<close> for a one-character separator\<close>
  "split_on sep [] = [[]]"
| "split_on sep (c # cs) =
     (if c = sep then [] # split_on sep cs
      else (case split_on sep cs of [] \<Rightarrow> [[c]] | l # ls \<Rightarrow> (c # l) # ls))"

fun join :: "string \<Rightarrow> string list \<Rightarrow> string" where
  \<comment> \<open>\<open>sep.join(xs)\<close>\<close>
  "join sep [] = []"
| "join sep [x] = x"
| "join sep (x # y # ys) = x @ sep @ join sep (y # ys)"

definition count_char :: "string \<Rightarrow> char \<Rightarrow> nat" where
  \<comment> \<open>\<open>s.count(c)\<close> for a one-character \<open>c\<close>\<close>
  "count_char s c = length (filter (\<lambda>x. x = c) s)"

definition lower_char :: "char \<Rightarrow> char" where
  \<comment> \<open>\<open>str.lower()\<close> on one character: the capitals are A to Z and the Latin-1 capitals
      0xC0 to 0xDE without the multiplication sign 0xD7; each is 32 below its small letter\<close>
  "lower_char c =
     (let n = (of_char c :: nat)
      in if (65 \<le> n \<and> n \<le> 90) \<or> (192 \<le> n \<and> n \<le> 214) \<or> (216 \<le> n \<and> n \<le> 222)
         then char_of (n + 32) else c)"

definition lower :: "string \<Rightarrow> string" where
  "lower s = map lower_char s"

definition newline :: char where
  "newline = CHR 0x0A"

definition fence :: string where
  \<comment> \<open>three backquotes\<close>
  "fence = [CHR 0x60, CHR 0x60, CHR 0x60]"

section \<open>Decoded values and errors\<close>

text \<open>
  The values \<open>json.loads\<close> returns, and the component and schema dictionaries the agents
  work on. A \<open>dict\<close> is an association list in insertion order; Python's \<open>None\<close> is
  \<open>JNull\<close>.
\<close>

datatype json =
    JNull
  | JBool bool
  | JInt int
  | JStr string
  | JArr "json list"
  | JObj "(string \<times> json) list"

text \<open>
  The exceptions of the source. Every constructor is one \<open>raise\<close> statement; the agent name
  and the wrapped exception are the parts of its message.
\<close>

datatype error =
    ApiCallFailed string string
      \<comment> \<open>\<open>RuntimeError(f"{agent_name} API call failed: {str(e)}")\<close>\<close>
  | EmptyResponse string
      \<comment> \<open>\<open>ValueError(f"{agent_name} returned empty response")\<close>\<close>
  | NoValidJson string
      \<comment> \<open>\<open>ValueError(f"{agent_name} response contains no valid JSON")\<close>\<close>
  | InvalidJson string
      \<comment> \<open>\<open>ValueError(f"{agent_name} returned invalid JSON: {str(e)}")\<close>\<close>
  | ParsingFailed string error
      \<comment> \<open>\<open>ValueError(f"{agent_name} response parsing failed: {str(e)}")\<close>\<close>
  | DecoderRaised string
      \<comment> \<open>an exception of \<open>json.loads\<close> other than \<open>JSONDecodeError\<close>, with its message\<close>
  | RetriesExhausted string int error
      \<comment> \<open>\<open>RuntimeError(f"{agent_name} failed after {self.max_retries} retries: {str(e)}")\<close>\<close>
  | CardsValidationFailed
      \<comment> \<open>the \<open>ValueError\<close> of \<open>DiscoveryAgent\<close> when the component cards are rejected\<close>
  | ParamValidationFailed "string list"
      \<comment> \<open>the \<open>ValueError\<close> of \<open>ParamProcessorAgent\<close> listing the missing parameters\<close>
  | AsyncClientMissing string
      \<comment> \<open>\<open>RuntimeError(f"{agent_name} async client not available")\<close>\<close>
  | AsyncApiCallFailed string string
      \<comment> \<open>\<open>RuntimeError(f"{agent_name} async API call failed: {str(e)}")\<close>\<close>
  | AsyncRetriesExhausted string int error
      \<comment> \<open>the \<open>RuntimeError\<close> of the asynchronous entry points after the last attempt\<close>
  | ProcessFailed string error
      \<comment> \<open>the \<open>RuntimeError\<close> a synchronous \<open>process\<close> wraps every exception in\<close>
  | TaskCardValidationFailed
      \<comment> \<open>the \<open>ValueError\<close> of \<open>SemanticAgent\<close> when the task card is rejected\<close>
  | ParallelFailed error
      \<comment> \<open>the \<open>RuntimeError\<close> \<open>generate_quantum_code_parallel\<close> wraps every exception in\<close>
  | PyAttributeError
  | PyTypeError
  | UnboundLocalError string
      \<comment> \<open>a local variable read before it is assigned\<close>
  | NameError string
      \<comment> \<open>a name that is neither a local, a global of the module nor a builtin\<close>

section \<open>BaseAgent\<close>

subsection \<open>\<open>_parse_json_with_retry\<close>\<close>

text \<open>
  \<open>json.loads\<close> belongs to the standard library, not to the repository: the parse step takes
  it as the parameter \<open>loads\<close>. A call of it returns a value (\<open>Decoded\<close>), raises
  \<open>json.JSONDecodeError\<close> (\<open>DecodeError\<close>) or raises another exception, such as
  \<open>RecursionError\<close> on deep nesting (\<open>DecodeRaised\<close> with its message). The source answers a
  \<open>JSONDecodeError\<close> of the first decoding with the line scan and one of the second decoding
  with \<open>invalid JSON\<close>; any other exception ends in \<open>response parsing failed\<close>.
\<close>

datatype decoded =
    Decoded json
  | DecodeError
  | DecodeRaised string

fun scan_lines :: "string list \<Rightarrow> string list \<Rightarrow> int \<Rightarrow> bool \<Rightarrow> string list" where
  \<comment> \<open>the \<open>for line in lines\<close> loop; the result is \<open>json_lines\<close>\<close>
  "scan_lines [] json_lines brace_count started = json_lines"
| "scan_lines (line # rest) json_lines brace_count started =
     (let started' = (started \<or> startswith (strip line) ''{'') in
      if started' then
        (let json_lines' = json_lines @ [line];
             brace_count' = brace_count + (int (count_char line (CHR ''{''))
                                            - int (count_char line (CHR ''}'')))
         in if brace_count' = 0 then json_lines'
            else scan_lines rest json_lines' brace_count' started')
      else scan_lines rest json_lines brace_count started')"

definition clean_markdown :: "string \<Rightarrow> string" where
  "clean_markdown response =
     (if startswith response (fence @ ''json'')
      then strip (remove_all fence (remove_all (fence @ ''json'') response))
      else response)"

definition parse_json_with_retry ::
  "(string \<Rightarrow> decoded) \<Rightarrow> string \<Rightarrow> string \<Rightarrow> error + json" where
  \<comment> \<open>an exception that is not a \<open>JSONDecodeError\<close> reaches \<open>except Exception\<close>\<close>
  "parse_json_with_retry loads response agent_name =
     (if response = [] \<or> strip response = []
      then Inl (ParsingFailed agent_name (EmptyResponse agent_name))
      else
        (let response' = clean_markdown response in
         case loads response' of
           Decoded data \<Rightarrow> Inr data
         | DecodeRaised msg \<Rightarrow> Inl (ParsingFailed agent_name (DecoderRaised msg))
         | DecodeError \<Rightarrow>
             (let json_lines = scan_lines (split_on newline response') [] 0 False in
              if json_lines \<noteq> []
              then (case loads (join [newline] json_lines) of
                      Decoded data \<Rightarrow> Inr data
                    | DecodeError \<Rightarrow> Inl (InvalidJson agent_name)
                    | DecodeRaised msg \<Rightarrow> Inl (ParsingFailed agent_name (DecoderRaised msg)))
              else Inl (ParsingFailed agent_name (NoValidJson agent_name)))))"

subsection \<open>\<open>_call_openai\<close> and \<open>_call_with_retry\<close>\<close>

text \<open>
  The external model is an oracle: \<open>llm k\<close> is the outcome of the \<open>k\<close>-th call made,
  \<open>Inl msg\<close> when anything inside the \<open>try\<close> block of \<open>_call_openai\<close> raises (with message
  \<open>msg\<close>), \<open>Inr content\<close> when the call delivers the reply text \<open>content\<close>. The state counts
  the calls made and logs the argument of every \<open>time.sleep\<close>, in milliseconds.
\<close>

type_synonym llm = "nat \<Rightarrow> string + string"

record io =
  calls :: nat
  sleeps :: "nat list"

definition call_openai :: "llm \<Rightarrow> string \<Rightarrow> io \<Rightarrow> (error + string) \<times> io" where
  "call_openai model agent_name st =
     (case model (calls st) of
        Inl msg \<Rightarrow> (Inl (ApiCallFailed agent_name msg), st\<lparr>calls := Suc (calls st)\<rparr>)
      | Inr content \<Rightarrow> (Inr (strip content), st\<lparr>calls := Suc (calls st)\<rparr>))"

definition try_body ::
  "(string \<Rightarrow> decoded) \<Rightarrow> llm \<Rightarrow> string \<Rightarrow> io \<Rightarrow> (error + json) \<times> io" where
  \<comment> \<open>the two statements inside \<open>try\<close>\<close>
  "try_body loads model agent_name st =
     (case call_openai model agent_name st of
        (Inl e, st') \<Rightarrow> (Inl e, st')
      | (Inr response, st') \<Rightarrow> (parse_json_with_retry loads response agent_name, st'))"

fun retry_loop ::
  "(string \<Rightarrow> decoded) \<Rightarrow> llm \<Rightarrow> string \<Rightarrow> int \<Rightarrow> nat list \<Rightarrow> io
     \<Rightarrow> (error + json) \<times> io" where
  \<comment> \<open>\<open>for attempt in ...\<close>; a loop that ends without \<open>return\<close> makes the function return \<open>None\<close>\<close>
  "retry_loop loads model agent_name max_retries [] st = (Inr JNull, st)"
| "retry_loop loads model agent_name max_retries (attempt # rest) st =
     (case try_body loads model agent_name st of
        (Inr data, st') \<Rightarrow> (Inr data, st')
      | (Inl e, st') \<Rightarrow>
          (if int attempt = max_retries - 1
           then (Inl (RetriesExhausted agent_name max_retries e), st')
           else retry_loop loads model agent_name max_retries rest
                  (st'\<lparr>sleeps := sleeps st' @ [500]\<rparr>)))"

definition call_with_retry ::
  "(string \<Rightarrow> decoded) \<Rightarrow> llm \<Rightarrow> int \<Rightarrow> string \<Rightarrow> io \<Rightarrow> (error + json) \<times> io" where
  \<comment> \<open>\<open>range(self.max_retries)\<close> is empty when \<open>max_retries \<le> 0\<close>\<close>
  "call_with_retry loads model max_retries agent_name st =
     retry_loop loads model agent_name max_retries [0..<nat max_retries] st"

definition attempt_result ::
  "(string \<Rightarrow> decoded) \<Rightarrow> llm \<Rightarrow> string \<Rightarrow> nat \<Rightarrow> error + json" where
  \<comment> \<open>what the \<open>try\<close> block yields when it makes the \<open>k\<close>-th call\<close>
  "attempt_result loads model agent_name k =
     fst (try_body loads model agent_name \<lparr>calls = k, sleeps = []\<rparr>)"

subsection \<open>A JSON decoder for concrete inputs\<close>

text \<open>
  The theorems about the parse step hold for every decoder \<open>loads\<close>. To run the model on
  concrete replies, \<open>json_loads\<close> decodes the JSON texts built from objects, arrays,
  strings without escape sequences, integers, \<open>true\<close>, \<open>false\<close> and \<open>null\<close>, as
  \<open>json.loads\<close> does (a repeated key keeps its last value); every other text is rejected
  as by a \<open>JSONDecodeError\<close>. The fuel of both passes is larger than the number of
  characters and tokens, so it never runs out; the recursion limit of the interpreter is
  not part of it.
\<close>

datatype token =
    TLBrace | TRBrace | TLBrack | TRBrack | TColon | TComma
  | TString string | TInt int | TTrue | TFalse | TNull

fun lex_string :: "string \<Rightarrow> (string \<times> string) option" where
  \<comment> \<open>the characters up to the closing quote, and the rest\<close>
  "lex_string [] = None"
| "lex_string (c # cs) =
     (if c = CHR 0x22 then Some ([], cs)
      else if c = CHR 0x5C \<or> (of_char c :: nat) < 32 then None
      else (case lex_string cs of None \<Rightarrow> None | Some (s, rest) \<Rightarrow> Some (c # s, rest)))"

definition is_digit :: "char \<Rightarrow> bool" where
  "is_digit c = (48 \<le> (of_char c :: nat) \<and> (of_char c :: nat) \<le> 57)"

definition digits_value :: "string \<Rightarrow> int" where
  "digits_value ds = foldl (\<lambda>acc c. 10 * acc + (int (of_char c) - 48)) 0 ds"

definition lex_number :: "string \<Rightarrow> (int \<times> string) option" where
  \<comment> \<open>\<open>-?(0|[1-9][0-9]*)\<close>; a fraction or an exponent is outside the fragment\<close>
  "lex_number cs =
     (let (neg, cs1) = (case cs of c # r \<Rightarrow> if c = CHR ''-'' then (True, r) else (False, cs)
                        | [] \<Rightarrow> (False, cs));
          ds = (case cs1 of c # r \<Rightarrow> if c = CHR ''0'' then [c] else takeWhile is_digit cs1
                | [] \<Rightarrow> []);
          rest = drop (length ds) cs1
      in if ds = [] then None
         else if (case rest of c # r \<Rightarrow> c \<in> {CHR ''.'', CHR ''e'', CHR ''E''} | [] \<Rightarrow> False)
         then None
         else Some (if neg then - digits_value ds else digits_value ds, rest))"

fun tokenize :: "nat \<Rightarrow> string \<Rightarrow> token list option" where
  "tokenize 0 cs = None"
| "tokenize (Suc n) [] = Some []"
| "tokenize (Suc n) (c # cs) =
     (if c \<in> {CHR '' '', CHR 0x09, CHR 0x0A, CHR 0x0D} then tokenize n cs
      else if c = CHR ''{'' then map_option ((#) TLBrace) (tokenize n cs)
      else if c = CHR ''}'' then map_option ((#) TRBrace) (tokenize n cs)
      else if c = CHR ''['' then map_option ((#) TLBrack) (tokenize n cs)
      else if c = CHR '']'' then map_option ((#) TRBrack) (tokenize n cs)
      else if c = CHR '':'' then map_option ((#) TColon) (tokenize n cs)
      else if c = CHR '','' then map_option ((#) TComma) (tokenize n cs)
      else if c = CHR 0x22 then
        (case lex_string cs of None \<Rightarrow> None
         | Some (s, rest) \<Rightarrow> map_option ((#) (TString s)) (tokenize n rest))
      else if c = CHR ''-'' \<or> is_digit c then
        (case lex_number (c # cs) of None \<Rightarrow> None
         | Some (i, rest) \<Rightarrow> map_option ((#) (TInt i)) (tokenize n rest))
      else if startswith (c # cs) ''true'' then map_option ((#) TTrue) (tokenize n (drop 3 cs))
      else if startswith (c # cs) ''false'' then map_option ((#) TFalse) (tokenize n (drop 4 cs))
      else if startswith (c # cs) ''null'' then map_option ((#) TNull) (tokenize n (drop 3 cs))
      else None)"

fun parse_value :: "nat \<Rightarrow> token list \<Rightarrow> (json \<times> token list) option"
  and parse_elements :: "nat \<Rightarrow> token list \<Rightarrow> json list \<Rightarrow> (json \<times> token list) option"
  and parse_members ::
    "nat \<Rightarrow> token list \<Rightarrow> (string \<times> json) list \<Rightarrow> (json \<times> token list) option" where
  "parse_value 0 ts = None"
| "parse_value (Suc n) ts =
     (case ts of
        [] \<Rightarrow> None
      | t # r \<Rightarrow>
          (case t of
             TNull \<Rightarrow> Some (JNull, r)
           | TTrue \<Rightarrow> Some (JBool True, r)
           | TFalse \<Rightarrow> Some (JBool False, r)
           | TInt i \<Rightarrow> Some (JInt i, r)
           | TString s \<Rightarrow> Some (JStr s, r)
           | TLBrack \<Rightarrow>
               (case r of TRBrack # r' \<Rightarrow> Some (JArr [], r') | _ \<Rightarrow> parse_elements n r [])
           | TLBrace \<Rightarrow>
               (case r of TRBrace # r' \<Rightarrow> Some (JObj [], r') | _ \<Rightarrow> parse_members n r [])
           | _ \<Rightarrow> None))"
| "parse_elements 0 ts acc = None"
| "parse_elements (Suc n) ts acc =
     (case parse_value n ts of
        None \<Rightarrow> None
      | Some (v, r) \<Rightarrow>
          (case r of
             TComma # r' \<Rightarrow> parse_elements n r' (acc @ [v])
           | TRBrack # r' \<Rightarrow> Some (JArr (acc @ [v]), r')
           | _ \<Rightarrow> None))"
| "parse_members 0 ts acc = None"
| "parse_members (Suc n) ts acc =
     (case ts of
        TString k # TColon # r \<Rightarrow>
          (case parse_value n r of
             None \<Rightarrow> None
           | Some (v, r') \<Rightarrow>
               (case r' of
                  TComma # r'' \<Rightarrow> parse_members n r'' (AList.update k v acc)
                | TRBrace # r'' \<Rightarrow> Some (JObj (AList.update k v acc), r'')
                | _ \<Rightarrow> None))
      | _ \<Rightarrow> None)"

definition json_value :: "string \<Rightarrow> json option" where
  "json_value s =
     (case tokenize (Suc (length s)) s of
        None \<Rightarrow> None
      | Some ts \<Rightarrow>
          (case parse_value (Suc (length ts)) ts of
             Some (v, []) \<Rightarrow> Some v
           | _ \<Rightarrow> None))"

definition json_loads :: "string \<Rightarrow> decoded" where
  "json_loads s = (case json_value s of None \<Rightarrow> DecodeError | Some v \<Rightarrow> Decoded v)"


section \<open>Dictionaries\<close>

text \<open>
  A \<open>dict\<close> is the list of its items in insertion order, with distinct keys. Storing under
  a key that is present replaces the value in place, storing under a new key appends:
  \<open>AList.update\<close>. \<open>dict_of\<close> builds a dictionary by storing the items one after the other,
  as a dictionary comprehension and a loop of assignments \<open>d[k] = v\<close> do.
\<close>

definition dict_of :: "(string \<times> json) list \<Rightarrow> (string \<times> json) list" where
  "dict_of items = foldl (\<lambda>d (k, v). AList.update k v d) [] items"

fun is_dict :: "json \<Rightarrow> bool" where
  \<comment> \<open>\<open>isinstance(v, dict)\<close>\<close>
  "is_dict (JObj d) = True"
| "is_dict v = False"

section \<open>Schema compression\<close>

definition kept_keys :: "string list" where
  "kept_keys = [''type'', ''default'', ''range'', ''options'']"

fun compress_spec :: "json \<Rightarrow> json" where
  \<comment> \<open>the body of the loop over the parameters, for one \<open>param_spec\<close>\<close>
  "compress_spec (JObj d) = JObj (dict_of (filter (\<lambda>(key, value). key \<in> set kept_keys) d))"
| "compress_spec v = v"

fun compress_schema :: "json \<Rightarrow> error + json" where
  \<comment> \<open>\<open>ParamProcessorAgent._compress_schema\<close>, and the inner loop of
      \<open>DiscoveryAgent._compress_schema_for_llm\<close>; \<open>.items()\<close> exists on a \<open>dict\<close> only\<close>
  "compress_schema (JObj schema) =
     Inr (JObj (dict_of (map (\<lambda>(param_name, param_spec). (param_name, compress_spec param_spec))
                          schema)))"
| "compress_schema v = Inl PyAttributeError"

fun compress_component :: "json \<Rightarrow> error + json" where
  \<comment> \<open>one round of the loop of \<open>_compress_schema_for_llm\<close>: \<open>.copy()\<close> exists on a \<open>dict\<close>
      and on a \<open>list\<close>; a \<open>list\<close> cannot be indexed by a string\<close>
  "compress_component (JObj component) =
     (case map_of component ''params_schema'' of
        None \<Rightarrow> Inr (JObj component)
      | Some schema \<Rightarrow>
          (case compress_schema schema of
             Inl e \<Rightarrow> Inl e
           | Inr compressed_schema \<Rightarrow>
               Inr (JObj (AList.update ''params_schema'' compressed_schema component))))"
| "compress_component (JArr xs) =
     (if JStr ''params_schema'' \<in> set xs then Inl PyTypeError else Inr (JArr xs))"
| "compress_component v = Inl PyAttributeError"

fun compress_schema_for_llm :: "json list \<Rightarrow> error + json list" where
  "compress_schema_for_llm [] = Inr []"
| "compress_schema_for_llm (component # components) =
     (case compress_component component of
        Inl e \<Rightarrow> Inl e
      | Inr compressed_comp \<Rightarrow>
          (case compress_schema_for_llm components of
             Inl e \<Rightarrow> Inl e
           | Inr compressed_components \<Rightarrow> Inr (compressed_comp # compressed_components)))"

section \<open>Python equality\<close>

text \<open>
  \<open>==\<close> on decoded values: dictionaries are equal when they have the same items in any
  order, and \<open>True\<close>, \<open>False\<close> equal \<open>1\<close>, \<open>0\<close>. \<open>x in xs\<close> on a list holds when an element is
  \<open>x\<close> itself or equal to \<open>x\<close>.
\<close>

fun py_eq :: "json \<Rightarrow> json \<Rightarrow> bool"
  and py_eq_list :: "json list \<Rightarrow> json list \<Rightarrow> bool"
  and py_eq_items :: "(string \<times> json) list \<Rightarrow> (string \<times> json) list \<Rightarrow> bool" where
  "py_eq JNull b = (b = JNull)"
| "py_eq (JBool x) b =
     (case b of JBool y \<Rightarrow> x = y | JInt j \<Rightarrow> j = (if x then 1 else 0) | _ \<Rightarrow> False)"
| "py_eq (JInt i) b =
     (case b of JInt j \<Rightarrow> i = j | JBool y \<Rightarrow> i = (if y then 1 else 0) | _ \<Rightarrow> False)"
| "py_eq (JStr s) b = (b = JStr s)"
| "py_eq (JArr xs) b = (case b of JArr ys \<Rightarrow> py_eq_list xs ys | _ \<Rightarrow> False)"
| "py_eq (JObj d) b =
     (case b of JObj e \<Rightarrow> length d = length e \<and> py_eq_items d e | _ \<Rightarrow> False)"
| "py_eq_list [] ys = (ys = [])"
| "py_eq_list (x # xs) ys =
     (case ys of [] \<Rightarrow> False | y # ys' \<Rightarrow> py_eq x y \<and> py_eq_list xs ys')"
| "py_eq_items [] e = True"
| "py_eq_items ((k, v) # d) e =
     ((case map_of e k of None \<Rightarrow> False | Some w \<Rightarrow> py_eq v w) \<and> py_eq_items d e)"

definition py_in :: "json \<Rightarrow> json list \<Rightarrow> bool" where
  "py_in x xs = list_ex (\<lambda>y. y = x \<or> py_eq x y) xs"

section \<open>DiscoveryAgent\<close>

subsection \<open>\<open>_filter_relevant_components\<close>\<close>

fun get_lower :: "json \<Rightarrow> string \<Rightarrow> error + string" where
  \<comment> \<open>\<open>d.get(key, "").lower()\<close>: \<open>get\<close> exists on a \<open>dict\<close>, \<open>lower\<close> on a \<open>str\<close>\<close>
  "get_lower (JObj d) key =
     (case map_of d key of
        None \<Rightarrow> Inr (lower [])
      | Some v \<Rightarrow> (case v of JStr s \<Rightarrow> Inr (lower s) | _ \<Rightarrow> Inl PyAttributeError))"
| "get_lower v key = Inl PyAttributeError"

fun lower_all :: "json list \<Rightarrow> error + string list" where
  "lower_all [] = Inr []"
| "lower_all (t # ts) =
     (case t of
        JStr s \<Rightarrow> (case lower_all ts of Inl e \<Rightarrow> Inl e | Inr ss \<Rightarrow> Inr (lower s # ss))
      | _ \<Rightarrow> Inl PyAttributeError)"

fun lower_tags :: "json \<Rightarrow> error + string list" where
  \<comment> \<open>\<open>[tag.lower() for tag in component.get("tags", [])]\<close>; iterating a \<open>str\<close> yields its
      characters, iterating a \<open>dict\<close> its keys, other values are not iterable\<close>
  "lower_tags (JObj d) =
     (case map_of d ''tags'' of
        None \<Rightarrow> Inr []
      | Some t \<Rightarrow>
          (case t of
             JArr ts \<Rightarrow> lower_all ts
           | JStr s \<Rightarrow> Inr (map (\<lambda>c. lower [c]) s)
           | JObj e \<Rightarrow> Inr (map (\<lambda>(k, v). lower k) e)
           | _ \<Rightarrow> Inl PyTypeError))"
| "lower_tags v = Inl PyAttributeError"

definition relevance_score :: "string \<Rightarrow> string \<Rightarrow> string list \<Rightarrow> string \<Rightarrow> string \<Rightarrow> nat" where
  \<comment> \<open>\<open>relevance_score\<close> in tenths. The source adds the floats 0.4, 0.3, 0.2, 0.1 to 0 and
      compares with 0.2: a sum with one of the first three is at least 0.2 in floating
      point too, and 0.1 alone is below.\<close>
  "relevance_score domain algorithm tags kind name =
     (if list_ex (\<lambda>domain_keyword. contains name domain_keyword
                                   \<or> contains (join '' '' tags) domain_keyword)
           (split_on (CHR ''.'') domain) then 4 else 0)
     + (if contains name algorithm \<or> contains (join '' '' tags) algorithm then 3 else 0)
     + (if kind \<in> set [''hamiltonian'', ''ansatz'', ''optimizer'', ''algorithm''] then 2 else 0)
     + (if kind \<in> set [''core'', ''backend''] \<or> ''core'' \<in> set tags then 1 else 0)"

fun filter_scored ::
  "string \<Rightarrow> string \<Rightarrow> json list \<Rightarrow> json list \<Rightarrow> error + json list" where
  \<comment> \<open>the first loop over \<open>registry_data\<close>; the last argument is \<open>filtered_components\<close>\<close>
  "filter_scored domain algorithm [] filtered = Inr filtered"
| "filter_scored domain algorithm (component # rest) filtered =
     (case lower_tags component of
        Inl e \<Rightarrow> Inl e
      | Inr tags \<Rightarrow>
          (case get_lower component ''kind'' of
             Inl e \<Rightarrow> Inl e
           | Inr kind \<Rightarrow>
               (case get_lower component ''name'' of
                  Inl e \<Rightarrow> Inl e
                | Inr name \<Rightarrow>
                    filter_scored domain algorithm rest
                      (if 2 \<le> relevance_score domain algorithm tags kind name
                       then filtered @ [component] else filtered))))"

fun core_kind :: "json \<Rightarrow> bool" where
  \<comment> \<open>\<open>component.get("kind") in ["core", "backend", "algorithm"]\<close>\<close>
  "core_kind (JObj d) =
     (case map_of d ''kind'' of
        Some (JStr k) \<Rightarrow> k \<in> set [''core'', ''backend'', ''algorithm'']
      | _ \<Rightarrow> False)"
| "core_kind v = False"

fun force_include :: "json list \<Rightarrow> json list \<Rightarrow> json list" where
  \<comment> \<open>the second loop over \<open>registry_data\<close>\<close>
  "force_include [] filtered = filtered"
| "force_include (component # rest) filtered =
     force_include rest
       (if core_kind component \<and> \<not> py_in component filtered
        then filtered @ [component] else filtered)"

definition filter_relevant_components :: "json \<Rightarrow> json list \<Rightarrow> error + json list" where
  "filter_relevant_components task_card registry_data =
     (case get_lower task_card ''domain'' of
        Inl e \<Rightarrow> Inl e
      | Inr domain \<Rightarrow>
          (case get_lower task_card ''algorithm'' of
             Inl e \<Rightarrow> Inl e
           | Inr algorithm \<Rightarrow>
               (case filter_scored domain algorithm registry_data [] of
                  Inl e \<Rightarrow> Inl e
                | Inr filtered \<Rightarrow>
                    Inr (if length filtered < 3 then force_include registry_data filtered
                         else filtered))))"

fun str_or_absent :: "json option \<Rightarrow> bool" where
  "str_or_absent None = True"
| "str_or_absent (Some (JStr s)) = True"
| "str_or_absent (Some v) = False"

fun is_str :: "json \<Rightarrow> bool" where
  "is_str (JStr s) = True"
| "is_str v = False"

fun well_typed_task :: "json \<Rightarrow> bool" where
  \<comment> \<open>a task card: a dictionary whose domain and algorithm, when present, are strings\<close>
  "well_typed_task (JObj d) =
     (str_or_absent (map_of d ''domain'') \<and> str_or_absent (map_of d ''algorithm''))"
| "well_typed_task v = False"

fun well_typed_component :: "json \<Rightarrow> bool" where
  \<comment> \<open>a catalog entry: a dictionary whose name and kind, when present, are strings and whose
      tags, when present, are a list of strings\<close>
  "well_typed_component (JObj d) =
     (str_or_absent (map_of d ''name'') \<and> str_or_absent (map_of d ''kind'')
      \<and> (case map_of d ''tags'' of
            None \<Rightarrow> True
          | Some (JArr ts) \<Rightarrow> list_all is_str ts
          | Some v \<Rightarrow> False))"
| "well_typed_component v = False"

fun named_component :: "json \<Rightarrow> bool" where
  \<comment> \<open>a component record of the data model: a dictionary whose name is a string, whose kind,
      when present, is a string and whose tags, when present, are a list of strings\<close>
  "named_component (JObj d) =
     (is_str (case map_of d ''name'' of None \<Rightarrow> JNull | Some v \<Rightarrow> v)
      \<and> well_typed_component (JObj d))"
| "named_component v = False"

fun entry_name :: "json \<Rightarrow> string option" where
  "entry_name (JObj d) = (case map_of d ''name'' of Some (JStr n) \<Rightarrow> Some n | _ \<Rightarrow> None)"
| "entry_name v = None"

section \<open>CodegenAgent\<close>

subsection \<open>\<open>_analyze_component_dependencies\<close>\<close>

record dep_entry =
  dep_name :: string
  dep_type :: string
  dep_variable :: string

record algorithm_dependency =
  algo_type :: string
  requires :: "dep_entry list"
  usage_pattern :: string

record component_dependencies =
  component_types :: "(string \<times> string) list"
  algorithm_dependencies :: "(string \<times> algorithm_dependency) list"
  execution_order :: json

definition type_mapping :: "(string \<times> string) list" where
  "type_mapping =
     [(''hamiltonian'', ''H''), (''optimizer'', ''optimizer''), (''circuit'', ''ansatz''),
      (''backend'', ''estimator''), (''algorithm'', ''algorithm'')]"

definition get_variable_name :: "string \<Rightarrow> string \<Rightarrow> string" where
  \<comment> \<open>\<open>type_mapping.get(component_type, component_name.lower())\<close>\<close>
  "get_variable_name component_name component_type =
     (case map_of type_mapping component_type of
        Some v \<Rightarrow> v
      | None \<Rightarrow> lower component_name)"

definition classify_by :: "(string \<Rightarrow> bool) \<Rightarrow> string option" where
  \<comment> \<open>the \<open>if\<close>/\<open>elif\<close> chain; \<open>has kw\<close> is \<open>kw in name\<close>\<close>
  "classify_by has =
     (if has ''Hamiltonian'' then Some ''hamiltonian''
      else if has ''Optimizer'' then Some ''optimizer''
      else if has ''Circuit'' \<or> has ''Ansatz'' then Some ''circuit''
      else if has ''Backend'' \<or> has ''Estimator'' then Some ''backend''
      else if has ''Algorithm'' then Some ''algorithm''
      else None)"

definition classify :: "string \<Rightarrow> string option" where
  "classify name = classify_by (contains name)"

fun classify_component :: "json \<Rightarrow> error + (string \<times> string) option" where
  \<comment> \<open>one round of the loop over \<open>components\<close>: the name and the type stored under it, if any.
      \<open>kw in name\<close> is a substring test on a \<open>str\<close>, a membership test on a \<open>list\<close> or a
      \<open>dict\<close> and a \<open>TypeError\<close> otherwise; a \<open>list\<close> or \<open>dict\<close> cannot be a dictionary key.\<close>
  "classify_component (JObj component) =
     (case (case map_of component ''name'' of None \<Rightarrow> JStr [] | Some v \<Rightarrow> v) of
        JStr name \<Rightarrow>
          Inr (case classify name of None \<Rightarrow> None | Some t \<Rightarrow> Some (name, t))
      | JArr xs \<Rightarrow>
          (if classify_by (\<lambda>kw. py_in (JStr kw) xs) = None then Inr None else Inl PyTypeError)
      | JObj d \<Rightarrow>
          (if classify_by (\<lambda>kw. kw \<in> set (map fst d)) = None then Inr None
           else Inl PyTypeError)
      | _ \<Rightarrow> Inl PyTypeError)"
| "classify_component v = Inl PyAttributeError"

fun build_component_types ::
  "json list \<Rightarrow> (string \<times> string) list \<Rightarrow> error + (string \<times> string) list" where
  "build_component_types [] types = Inr types"
| "build_component_types (component # rest) types =
     (case classify_component component of
        Inl e \<Rightarrow> Inl e
      | Inr None \<Rightarrow> build_component_types rest types
      | Inr (Some (name, t)) \<Rightarrow> build_component_types rest (AList.update name t types))"

fun iterate :: "json \<Rightarrow> error + json list" where
  \<comment> \<open>the values a \<open>for\<close> loop over the value visits\<close>
  "iterate (JArr xs) = Inr xs"
| "iterate (JStr s) = Inr (map (\<lambda>c. JStr [c]) s)"
| "iterate (JObj d) = Inr (map (\<lambda>(k, v). JStr k) d)"
| "iterate v = Inl PyTypeError"

fun collect_deps ::
  "string \<Rightarrow> (string \<times> string) list \<Rightarrow> json list \<Rightarrow> error + dep_entry list" where
  \<comment> \<open>the loop over \<open>execution_order\<close> for one algorithm; \<open>comp_name in component_types\<close>
      needs a hashable \<open>comp_name\<close>\<close>
  "collect_deps algo_name types [] = Inr []"
| "collect_deps algo_name types (comp_name # rest) =
     (case comp_name of
        JStr n \<Rightarrow>
          (case collect_deps algo_name types rest of
             Inl e \<Rightarrow> Inl e
           | Inr deps \<Rightarrow>
               (if n \<noteq> algo_name then
                  (case map_of types n of
                     Some comp_type \<Rightarrow>
                       Inr (\<lparr>dep_name = n, dep_type = comp_type,
                             dep_variable = get_variable_name n comp_type\<rparr> # deps)
                   | None \<Rightarrow> Inr deps)
                else Inr deps))
      | JArr xs \<Rightarrow> Inl PyTypeError
      | JObj d \<Rightarrow> Inl PyTypeError
      | _ \<Rightarrow> collect_deps algo_name types rest)"

definition make_usage_pattern :: "string \<Rightarrow> dep_entry list \<Rightarrow> string" where
  "make_usage_pattern algo_name algo_deps =
     ''algorithm = '' @ last (split_on (CHR ''.'') algo_name) @ ''(''
       @ join '', '' (map (\<lambda>dep. dep_type dep @ ''='' @ dep_variable dep) algo_deps) @ '')''"

fun build_dependencies ::
  "string list \<Rightarrow> (string \<times> string) list \<Rightarrow> json
     \<Rightarrow> (string \<times> algorithm_dependency) list
     \<Rightarrow> error + (string \<times> algorithm_dependency) list" where
  \<comment> \<open>the loop over \<open>algorithm_components\<close>; the order is iterated anew for each algorithm\<close>
  "build_dependencies [] types order dependencies = Inr dependencies"
| "build_dependencies (algo_name # rest) types order dependencies =
     (case iterate order of
        Inl e \<Rightarrow> Inl e
      | Inr comp_names \<Rightarrow>
          (case collect_deps algo_name types comp_names of
             Inl e \<Rightarrow> Inl e
           | Inr algo_deps \<Rightarrow>
               build_dependencies rest types order
                 (AList.update algo_name
                    \<lparr>algo_type = ''algorithm'', requires = algo_deps,
                     usage_pattern = make_usage_pattern algo_name algo_deps\<rparr>
                    dependencies)))"

fun analyze_component_dependencies :: "json list \<Rightarrow> json \<Rightarrow> error + component_dependencies" where
  "analyze_component_dependencies components (JObj pipeline_plan) =
     (let order = (case map_of pipeline_plan ''execution_order'' of
                     None \<Rightarrow> JArr [] | Some v \<Rightarrow> v)
      in case build_component_types components [] of
           Inl e \<Rightarrow> Inl e
         | Inr types \<Rightarrow>
             (let algorithm_components =
                    map fst (filter (\<lambda>(name, t). t = ''algorithm'') types)
              in case build_dependencies algorithm_components types order [] of
                   Inl e \<Rightarrow> Inl e
                 | Inr dependencies \<Rightarrow>
                     Inr \<lparr>component_types = types, algorithm_dependencies = dependencies,
                          execution_order = order\<rparr>))"
| "analyze_component_dependencies components v = Inl PyAttributeError"

definition binding_of :: "component_dependencies \<Rightarrow> string \<Rightarrow> dep_entry list option" where
  \<comment> \<open>\<open>result["algorithm_dependencies"][name]["requires"]\<close>, when the name is a key\<close>
  "binding_of result name = map_option requires (map_of (algorithm_dependencies result) name)"

fun has_str_name :: "json \<Rightarrow> bool" where
  \<comment> \<open>a component record: a dictionary whose name, when present, is a string\<close>
  "has_str_name (JObj d) = str_or_absent (map_of d ''name'')"
| "has_str_name v = False"

section \<open>AgentMemory\<close>

text \<open>
  The store is the object's nine lists. \<open>datetime.now().isoformat()\<close> is a reading of the
  clock, passed to each operation as a string.
\<close>

record agent_memory =
  param_patterns :: "json list"
  param_completions :: "json list"
  param_normalizations :: "json list"
  component_combinations :: "json list"
  successful_discoveries :: "json list"
  generation_patterns :: "json list"
  successful_generations :: "json list"
  validation_failures :: "json list"
  missing_param_cases :: "json list"

definition create_agent_memory :: agent_memory where
  "create_agent_memory =
     \<lparr>param_patterns = [], param_completions = [], param_normalizations = [],
      component_combinations = [], successful_discoveries = [], generation_patterns = [],
      successful_generations = [], validation_failures = [], missing_param_cases = []\<rparr>"

definition record_success_case ::
  "agent_memory \<Rightarrow> string \<Rightarrow> json \<Rightarrow> json \<Rightarrow> string \<Rightarrow> agent_memory" where
  "record_success_case mem agent_type input_data output_data now =
     (let case' = JObj [(''agent_type'', JStr agent_type), (''timestamp'', JStr now),
                        (''input'', input_data), (''output'', output_data)]
      in if agent_type = ''DiscoveryAgent''
         then mem\<lparr>successful_discoveries := successful_discoveries mem @ [case']\<rparr>
         else if agent_type = ''ParamNormAgent''
         then mem\<lparr>param_normalizations := param_normalizations mem @ [case']\<rparr>
         else if agent_type = ''CodegenAgent''
         then mem\<lparr>successful_generations := successful_generations mem @ [case']\<rparr>
         else mem)"

definition extract_query_type :: "string \<Rightarrow> string" where
  "extract_query_type query =
     (let query_lower = lower query
      in if contains query_lower ''ising'' \<or> contains query_lower ''spin'' then ''SPIN_MODEL''
         else if contains query_lower ''molecular'' \<or> contains query_lower ''molecule''
         then ''molecular''
         else if contains query_lower ''heisenberg'' then ''heisenberg''
         else ''general'')"

fun get_default :: "json \<Rightarrow> string \<Rightarrow> json \<Rightarrow> error + json" where
  \<comment> \<open>\<open>d.get(key, default)\<close>\<close>
  "get_default (JObj d) key dflt =
     Inr (case map_of d key of None \<Rightarrow> dflt | Some v \<Rightarrow> v)"
| "get_default v key dflt = Inl PyAttributeError"

fun component_kinds :: "json list \<Rightarrow> error + json list" where
  \<comment> \<open>\<open>[comp.get("kind", "") for comp in components]\<close>\<close>
  "component_kinds [] = Inr []"
| "component_kinds (component # rest) =
     (case get_default component ''kind'' (JStr []) of
        Inl e \<Rightarrow> Inl e
      | Inr kind \<Rightarrow>
          (case component_kinds rest of Inl e \<Rightarrow> Inl e | Inr kinds \<Rightarrow> Inr (kind # kinds)))"

definition processing_records ::
  "string \<Rightarrow> json list \<Rightarrow> json \<Rightarrow> json \<Rightarrow> string \<Rightarrow> string \<Rightarrow> error + json \<times> json" where
  \<comment> \<open>\<open>completion_record\<close> and \<open>normalization_record\<close> of \<open>record_param_processing\<close>; both
      are built before a list is changed\<close>
  "processing_records query components original_params processed_result now1 now2 =
     (case component_kinds components of
        Inl e \<Rightarrow> Inl e
      | Inr kinds \<Rightarrow>
          (case get_default processed_result ''normalized_params'' (JObj []) of
             Inl e \<Rightarrow> Inl e
           | Inr completed_params \<Rightarrow>
               Inr (JObj [(''query'', JStr query),
                          (''query_type'', JStr (extract_query_type query)),
                          (''component_types'', JArr kinds),
                          (''original_params'', original_params),
                          (''completed_params'', completed_params),
                          (''timestamp'', JStr now1)],
                    JObj [(''task_info'', JObj [(''params'', original_params),
                                                (''query'', JStr query)]),
                          (''component_types'', JArr kinds),
                          (''param_map'', processed_result),
                          (''timestamp'', JStr now2)])))"

definition keep_limit :: "json list \<Rightarrow> json list" where
  \<comment> \<open>\<open>if len(xs) > 50: xs.pop(0)\<close>\<close>
  "keep_limit xs = (if length xs > 50 then tl xs else xs)"

definition record_param_processing ::
  "agent_memory \<Rightarrow> string \<Rightarrow> json list \<Rightarrow> json \<Rightarrow> json \<Rightarrow> string \<Rightarrow> string
     \<Rightarrow> error + agent_memory" where
  "record_param_processing mem query components original_params processed_result now1 now2 =
     (case processing_records query components original_params processed_result now1 now2 of
        Inl e \<Rightarrow> Inl e
      | Inr (completion_record, normalization_record) \<Rightarrow>
          Inr (mem\<lparr>param_completions :=
                      keep_limit (param_completions mem @ [completion_record]),
                    param_normalizations :=
                      keep_limit (param_normalizations mem @ [normalization_record])\<rparr>))"

text \<open>Sequences of calls on one store; an exception ends the sequence.\<close>

datatype memory_call =
    RecordSuccessCase string json json string
  | RecordParamProcessing string "json list" json json string string

fun apply_call :: "agent_memory \<Rightarrow> memory_call \<Rightarrow> error + agent_memory" where
  "apply_call mem (RecordSuccessCase agent_type input_data output_data now) =
     Inr (record_success_case mem agent_type input_data output_data now)"
| "apply_call mem (RecordParamProcessing query components original_params processed_result
                     now1 now2) =
     record_param_processing mem query components original_params processed_result now1 now2"

fun apply_calls :: "agent_memory \<Rightarrow> memory_call list \<Rightarrow> error + agent_memory" where
  "apply_calls mem [] = Inr mem"
| "apply_calls mem (c # cs) =
     (case apply_call mem c of Inl e \<Rightarrow> Inl e | Inr mem' \<Rightarrow> apply_calls mem' cs)"

fun call_records :: "memory_call \<Rightarrow> (json \<times> json) option" where
  \<comment> \<open>the two records a \<open>record_param_processing\<close> call stores\<close>
  "call_records (RecordParamProcessing query components original_params processed_result
                   now1 now2) =
     (case processing_records query components original_params processed_result now1 now2 of
        Inl e \<Rightarrow> None
      | Inr rs \<Rightarrow> Some rs)"
| "call_records c = None"

section \<open>Stages: \<open>process\<close> and \<open>process_async\<close>\<close>

text \<open>
  The \<open>try\<close> block of \<open>process\<close> and the retry loop of \<open>process_async\<close>, for
  \<open>DiscoveryAgent\<close> and \<open>ParamProcessorAgent\<close>. The preparation of the message before them
  makes no call of the external model. \<open>check\<close> is the validation with its \<open>return\<close> and
  \<open>raise\<close>: the record when it is valid, the \<open>ValueError\<close> otherwise.
\<close>

definition call_openai_async :: "bool \<Rightarrow> llm \<Rightarrow> string \<Rightarrow> io \<Rightarrow> (error + string) \<times> io" where
  \<comment> \<open>\<open>_call_openai_async\<close>; the flag says whether \<open>self.async_client\<close> is set\<close>
  "call_openai_async has_async_client model agent_name st =
     (if \<not> has_async_client then (Inl (AsyncClientMissing agent_name), st)
      else (case model (calls st) of
              Inl msg \<Rightarrow> (Inl (AsyncApiCallFailed agent_name msg), st\<lparr>calls := Suc (calls st)\<rparr>)
            | Inr content \<Rightarrow> (Inr (strip content), st\<lparr>calls := Suc (calls st)\<rparr>)))"

definition stage_process ::
  "(string \<Rightarrow> decoded) \<Rightarrow> llm \<Rightarrow> int \<Rightarrow> string \<Rightarrow> (json \<Rightarrow> error + json) \<Rightarrow> io
     \<Rightarrow> (error + json) \<times> io" where
  \<comment> \<open>\<open>try: result = self._call_with_retry(...); validate\<close> and
      \<open>except Exception as e: raise RuntimeError(...)\<close>\<close>
  "stage_process loads model max_retries agent_name check st =
     (case call_with_retry loads model max_retries agent_name st of
        (Inl e, st') \<Rightarrow> (Inl (ProcessFailed agent_name e), st')
      | (Inr result, st') \<Rightarrow>
          (case check result of
             Inl e \<Rightarrow> (Inl (ProcessFailed agent_name e), st')
           | Inr data \<Rightarrow> (Inr data, st')))"

fun stage_async_loop ::
  "(string \<Rightarrow> decoded) \<Rightarrow> bool \<Rightarrow> llm \<Rightarrow> int \<Rightarrow> string \<Rightarrow> (json \<Rightarrow> error + json)
     \<Rightarrow> nat list \<Rightarrow> io \<Rightarrow> (error + json) \<times> io" where
  \<comment> \<open>\<open>for attempt in range(self.max_retries)\<close> of \<open>process_async\<close>: call, parse and
      validation are inside one \<open>try\<close>\<close>
  "stage_async_loop loads has_async_client model max_retries agent_name check [] st =
     (Inr JNull, st)"
| "stage_async_loop loads has_async_client model max_retries agent_name check (attempt # rest) st =
     (let (outcome, st') =
            (case call_openai_async has_async_client model agent_name st of
               (Inl e, st') \<Rightarrow> (Inl e, st')
             | (Inr response, st') \<Rightarrow>
                 (case parse_json_with_retry loads response agent_name of
                    Inl e \<Rightarrow> (Inl e, st')
                  | Inr parsed_data \<Rightarrow> (check parsed_data, st')))
      in case outcome of
           Inr data \<Rightarrow> (Inr data, st')
         | Inl e \<Rightarrow>
             (if int attempt = max_retries - 1
              then (Inl (AsyncRetriesExhausted agent_name max_retries e), st')
              else stage_async_loop loads has_async_client model max_retries agent_name check
                     rest (st'\<lparr>sleeps := sleeps st' @ [500]\<rparr>)))"

definition stage_process_async ::
  "(string \<Rightarrow> decoded) \<Rightarrow> bool \<Rightarrow> llm \<Rightarrow> int \<Rightarrow> string \<Rightarrow> (json \<Rightarrow> error + json) \<Rightarrow> io
     \<Rightarrow> (error + json) \<times> io" where
  "stage_process_async loads has_async_client model max_retries agent_name check st =
     stage_async_loop loads has_async_client model max_retries agent_name check
       [0..<nat max_retries] st"

subsection \<open>\<open>DiscoveryAgent\<close>\<close>

definition required_fields :: "string list" where
  "required_fields =
     [''name'', ''kind'', ''tags'', ''needs'', ''provides'', ''params_schema'', ''yields'',
      ''codegen_hint'']"

fun valid_card :: "json \<Rightarrow> bool" where
  "valid_card (JObj d) = list_all (\<lambda>field. field \<in> set (map fst d)) required_fields"
| "valid_card v = False"

fun validate_component_cards :: "json \<Rightarrow> bool" where
  "validate_component_cards (JArr cards) = list_all valid_card cards"
| "validate_component_cards v = False"

definition check_component_cards :: "json \<Rightarrow> error + json" where
  "check_component_cards data =
     (if validate_component_cards data then Inr data else Inl CardsValidationFailed)"

definition discovery_process ::
  "(string \<Rightarrow> decoded) \<Rightarrow> llm \<Rightarrow> int \<Rightarrow> io \<Rightarrow> (error + json) \<times> io" where
  "discovery_process loads model max_retries st =
     stage_process loads model max_retries ''DiscoveryAgent'' check_component_cards st"

definition discovery_process_async ::
  "(string \<Rightarrow> decoded) \<Rightarrow> bool \<Rightarrow> llm \<Rightarrow> int \<Rightarrow> io \<Rightarrow> (error + json) \<times> io" where
  "discovery_process_async loads has_async_client model max_retries st =
     stage_process_async loads has_async_client model max_retries ''DiscoveryAgent''
       check_component_cards st"

subsection \<open>\<open>ParamProcessorAgent\<close>\<close>

fun str_in :: "string \<Rightarrow> json \<Rightarrow> error + bool" where
  \<comment> \<open>\<open>s in x\<close> for a string \<open>s\<close>: a key of a \<open>dict\<close>, an element of a \<open>list\<close>, a substring of
      a \<open>str\<close>; other values are not containers\<close>
  "str_in s (JObj d) = Inr (s \<in> set (map fst d))"
| "str_in s (JArr xs) = Inr (py_in (JStr s) xs)"
| "str_in s (JStr t) = Inr (contains t s)"
| "str_in s v = Inl PyTypeError"

fun first_missing_field :: "string list \<Rightarrow> json \<Rightarrow> error + string option" where
  \<comment> \<open>the loop over \<open>required_fields\<close> of \<open>_validate_param_map\<close>\<close>
  "first_missing_field [] data = Inr None"
| "first_missing_field (field # rest) data =
     (case str_in field data of
        Inl e \<Rightarrow> Inl e
      | Inr True \<Rightarrow> first_missing_field rest data
      | Inr False \<Rightarrow> Inr (Some field))"

fun has_default :: "json \<Rightarrow> bool" where
  \<comment> \<open>\<open>isinstance(param_spec, dict) and param_spec.get("default") is not None\<close>\<close>
  "has_default (JObj spec) =
     (case map_of spec ''default'' of None \<Rightarrow> False | Some v \<Rightarrow> v \<noteq> JNull)"
| "has_default v = False"

fun missing_params :: "(string \<times> json) list \<Rightarrow> json \<Rightarrow> error + string list" where
  \<comment> \<open>the loop over \<open>required_schema.items()\<close>\<close>
  "missing_params [] normalized_params = Inr []"
| "missing_params ((param_name, param_spec) # rest) normalized_params =
     (case str_in param_name normalized_params of
        Inl e \<Rightarrow> Inl e
      | Inr present \<Rightarrow>
          (case missing_params rest normalized_params of
             Inl e \<Rightarrow> Inl e
           | Inr missing \<Rightarrow>
               Inr (if \<not> present \<and> \<not> has_default param_spec then param_name # missing
                    else missing)))"

definition validate_param_map ::
  "json \<Rightarrow> (string \<times> json) list \<Rightarrow> error + bool \<times> string list" where
  "validate_param_map data required_schema =
     (case first_missing_field
             [''normalized_params'', ''aliases'', ''defaults'', ''validation_errors''] data of
        Inl e \<Rightarrow> Inl e
      | Inr (Some field) \<Rightarrow> Inr (False, [''Missing field: '' @ field])
      | Inr None \<Rightarrow>
          (case get_default data ''normalized_params'' (JObj []) of
             Inl e \<Rightarrow> Inl e
           | Inr normalized_params \<Rightarrow>
               (case missing_params required_schema normalized_params of
                  Inl e \<Rightarrow> Inl e
                | Inr missing \<Rightarrow> Inr (missing = [], missing))))"

definition check_param_map :: "(string \<times> json) list \<Rightarrow> json \<Rightarrow> error + json" where
  "check_param_map required_schema data =
     (case validate_param_map data required_schema of
        Inl e \<Rightarrow> Inl e
      | Inr (valid, missing) \<Rightarrow> if valid then Inr data else Inl (ParamValidationFailed missing))"

definition param_processor_process ::
  "(string \<Rightarrow> decoded) \<Rightarrow> llm \<Rightarrow> int \<Rightarrow> (string \<times> json) list \<Rightarrow> io
     \<Rightarrow> (error + json) \<times> io" where
  "param_processor_process loads model max_retries required_schema st =
     stage_process loads model max_retries ''ParamProcessorAgent''
       (check_param_map required_schema) st"

definition param_processor_process_async ::
  "(string \<Rightarrow> decoded) \<Rightarrow> bool \<Rightarrow> llm \<Rightarrow> int \<Rightarrow> (string \<times> json) list \<Rightarrow> io
     \<Rightarrow> (error + json) \<times> io" where
  "param_processor_process_async loads has_async_client model max_retries required_schema st =
     stage_process_async loads has_async_client model max_retries ''ParamProcessorAgent''
       (check_param_map required_schema) st"

section \<open>SemanticAgent and QuantumOrchestrator\<close>

subsection \<open>\<open>SemanticAgent.process\<close>\<close>

definition valid_domains :: "string list" where
  "valid_domains =
     [''spin'', ''spin.tfim'', ''spin.heisenberg'', ''spin.ising'', ''chemistry.molecular'',
      ''optimization'', ''custom'']"

definition validate_task_card :: "json \<Rightarrow> error + bool" where
  \<comment> \<open>\<open>data["domain"]\<close> needs a \<open>dict\<close>; membership in a \<open>set\<close> needs a hashable value\<close>
  "validate_task_card data =
     (case first_missing_field [''domain'', ''problem'', ''algorithm'', ''backend'', ''params'']
             data of
        Inl e \<Rightarrow> Inl e
      | Inr (Some field) \<Rightarrow> Inr False
      | Inr None \<Rightarrow>
          (case data of
             JObj d \<Rightarrow>
               (case map_of d ''domain'' of
                  None \<Rightarrow> Inr False
                | Some v \<Rightarrow>
                    (case v of
                       JStr domain \<Rightarrow>
                         Inr (domain \<in> set valid_domains
                              \<and> map_of d ''backend'' = Some (JStr ''qiskit''))
                     | JArr xs \<Rightarrow> Inl PyTypeError
                     | JObj e \<Rightarrow> Inl PyTypeError
                     | _ \<Rightarrow> Inr False))
           | _ \<Rightarrow> Inl PyTypeError))"

definition check_task_card :: "json \<Rightarrow> error + json" where
  "check_task_card data =
     (case validate_task_card data of
        Inl e \<Rightarrow> Inl e
      | Inr valid \<Rightarrow> if valid then Inr data else Inl TaskCardValidationFailed)"

definition semantic_process ::
  "(string \<Rightarrow> decoded) \<Rightarrow> llm \<Rightarrow> int \<Rightarrow> io \<Rightarrow> (error + json) \<times> io" where
  "semantic_process loads model max_retries st =
     stage_process loads model max_retries ''SemanticAgent'' check_task_card st"

subsection \<open>\<open>generate_quantum_code_parallel\<close>\<close>

text \<open>
  The local variables of the function are a frame: a name that the body assigns somewhere
  is a local, and reading it before its assignment raises \<open>UnboundLocalError\<close>. A name that
  the body never assigns is looked up among the globals of the module and the builtins.
  Calling an \<open>async\<close> method makes a coroutine object and runs nothing; its arguments are
  evaluated at the call.
\<close>

datatype pyval =
    PJson json
  | PCoroutine string "pyval list"
  | PGlobal string

type_synonym frame = "(string \<times> pyval) list"

definition load_fast :: "frame \<Rightarrow> string \<Rightarrow> error + pyval" where
  "load_fast locals name =
     (case map_of locals name of None \<Rightarrow> Inl (UnboundLocalError name) | Some v \<Rightarrow> Inr v)"

definition store_fast :: "frame \<Rightarrow> string \<Rightarrow> pyval \<Rightarrow> frame" where
  "store_fast locals name v = AList.update name v locals"

definition module_names :: "string list" where
  \<comment> \<open>the names bound at the top level of \<open>quantum_orchestrator.py\<close>, and the builtins the
      function uses\<close>
  "module_names =
     [''asyncio'', ''os'', ''Dict'', ''Any'', ''List'', ''Optional'', ''OpenAI'', ''AsyncOpenAI'',
      ''load_dotenv'', ''SemanticAgent'', ''DiscoveryAgent'', ''ParamProcessorAgent'',
      ''PipelineAgent'', ''CodegenAgent'', ''create_agent_memory'', ''Memory'',
      ''create_cache_manager'', ''QuantumOrchestrator'', ''create_engine'',
      ''print'', ''len'', ''isinstance'', ''Exception'', ''RuntimeError'']"

definition load_global :: "string \<Rightarrow> error + pyval" where
  "load_global name =
     (if name \<in> set module_names then Inr (PGlobal name) else Inl (NameError name))"

definition parallel_try_body ::
  "(string \<Rightarrow> decoded) \<Rightarrow> llm \<Rightarrow> int \<Rightarrow> (frame \<Rightarrow> pyval \<Rightarrow> io \<Rightarrow> (error + json) \<times> io)
     \<Rightarrow> frame \<Rightarrow> io \<Rightarrow> (error + json) \<times> io" where
  \<comment> \<open>the statements of the \<open>try\<close> block, down to the evaluation of the arguments of
      \<open>asyncio.gather\<close>; \<open>rest\<close> is what follows, given the frame and the second argument\<close>
  "parallel_try_body loads model max_retries rest locals st =
     (case semantic_process loads model max_retries st of
        (Inl e, st1) \<Rightarrow> (Inl e, st1)
      | (Inr task_card, st1) \<Rightarrow>
          (let locals1 = store_fast locals ''task_card'' (PJson task_card) in
           case load_fast locals1 ''registry_data'' of
             Inl e \<Rightarrow> (Inl e, st1)
           | Inr registry_data \<Rightarrow>
               (let locals2 = store_fast locals1 ''discovery_task''
                                (PCoroutine ''DiscoveryAgent.process_async''
                                   [PJson task_card, registry_data]) in
                case load_fast locals2 ''query'' of
                  Inl e \<Rightarrow> (Inl e, st1)
                | Inr query \<Rightarrow>
                    (case load_fast locals2 ''components'' of
                       Inl e \<Rightarrow> (Inl e, st1)
                     | Inr components \<Rightarrow>
                         (let locals3 = store_fast locals2 ''param_map_task''
                                          (PCoroutine ''ParamProcessorAgent.process_async''
                                             [query, PJson task_card, components]) in
                          case load_fast locals3 ''discovery_task'' of
                            Inl e \<Rightarrow> (Inl e, st1)
                          | Inr discovery_task \<Rightarrow>
                              (case load_global ''param_norm_task'' of
                                 Inl e \<Rightarrow> (Inl e, st1)
                               | Inr param_norm_task \<Rightarrow>
                                   rest locals3 param_norm_task st1))))))"

definition generate_quantum_code_parallel ::
  "(string \<Rightarrow> decoded) \<Rightarrow> llm \<Rightarrow> int \<Rightarrow> (frame \<Rightarrow> pyval \<Rightarrow> io \<Rightarrow> (error + json) \<times> io)
     \<Rightarrow> json \<Rightarrow> json \<Rightarrow> json \<Rightarrow> json \<Rightarrow> io \<Rightarrow> (error + json) \<times> io" where
  \<comment> \<open>the frame starts with the parameters; \<open>except Exception as e: raise RuntimeError(...)\<close>\<close>
  "generate_quantum_code_parallel loads model max_retries rest
       query registry_data helper_sources component_imports st =
     (case parallel_try_body loads model max_retries rest
             [(''query'', PJson query), (''registry_data'', PJson registry_data),
              (''helper_sources'', PJson helper_sources),
              (''component_imports'', PJson component_imports)] st of
        (Inl e, st') \<Rightarrow> (Inl (ParallelFailed e), st')
      | (Inr code_cells, st') \<Rightarrow> (Inr code_cells, st'))"

section \<open>Properties of the retry wrapper\<close>


lemma try_body_eq:
  "try_body loads model agent st =
     (attempt_result loads model agent (calls st), st\<lparr>calls := Suc (calls st)\<rparr>)"
  by (auto simp: attempt_result_def try_body_def call_openai_def split: prod.splits sum.splits)

lemma retry_loop_calls_le:
  "calls (snd (retry_loop loads model agent m atts st)) \<le> calls st + length atts"
proof (induction atts arbitrary: st)
  case Nil
  then show ?case by simp
next
  case (Cons a atts)
  show ?case
    using Cons.IH[of "st\<lparr>calls := Suc (calls st), sleeps := sleeps st @ [500]\<rparr>"]
    by (auto simp: try_body_eq split: sum.splits)
qed

lemma retry_loop_success:
  assumes "i + N < nat m"
    and "\<forall>j<N. isl (attempt_result loads model agent (calls st + j))"
    and "attempt_result loads model agent (calls st + N) = Inr d"
  shows "retry_loop loads model agent m [i..<nat m] st =
           (Inr d, st\<lparr>calls := calls st + N + 1, sleeps := sleeps st @ replicate N 500\<rparr>)"
  using assms
proof (induction N arbitrary: i st)
  case 0
  then have "[i..<nat m] = i # [Suc i..<nat m]" by (simp add: upt_conv_Cons)
  with 0 show ?case by (simp add: try_body_eq)
next
  case (Suc N)
  have up: "[i..<nat m] = i # [Suc i..<nat m]" using Suc.prems(1) by (simp add: upt_conv_Cons)
  from Suc.prems(2) have fail: "isl (attempt_result loads model agent (calls st))"
    by (metis add.right_neutral zero_less_Suc)
  then obtain e where e: "attempt_result loads model agent (calls st) = Inl e"
    by (cases "attempt_result loads model agent (calls st)") auto
  have notlast: "int i \<noteq> m - 1" using Suc.prems(1) by linarith
  let ?st = "st\<lparr>calls := Suc (calls st), sleeps := sleeps st @ [500]\<rparr>"
  have "retry_loop loads model agent m [Suc i..<nat m] ?st =
          (Inr d, ?st\<lparr>calls := calls ?st + N + 1, sleeps := sleeps ?st @ replicate N 500\<rparr>)"
  proof (rule Suc.IH)
    show "Suc i + N < nat m" using Suc.prems(1) by simp
    show "\<forall>j<N. isl (attempt_result loads model agent (calls ?st + j))"
      using Suc.prems(2) by (auto dest: spec[where x = "Suc j" for j])
    show "attempt_result loads model agent (calls ?st + N) = Inr d"
      using Suc.prems(3) by simp
  qed
  then show ?case
    using e notlast by (simp add: up try_body_eq replicate_append_same)
qed

lemma retry_loop_exhausted:
  assumes "nat m = i + Suc k"
    and "\<forall>j<Suc k. isl (attempt_result loads model agent (calls st + j))"
  shows "retry_loop loads model agent m [i..<nat m] st =
           (Inl (RetriesExhausted agent m
                  (projl (attempt_result loads model agent (calls st + k)))),
            st\<lparr>calls := calls st + Suc k, sleeps := sleeps st @ replicate k 500\<rparr>)"
  using assms
proof (induction k arbitrary: i st)
  case 0
  then have up: "[i..<nat m] = [i]" by simp
  from 0 have last: "int i = m - 1" by linarith
  from 0 obtain e where e: "attempt_result loads model agent (calls st) = Inl e"
    by (cases "attempt_result loads model agent (calls st)") auto
  show ?case using e last by (simp add: up try_body_eq)
next
  case (Suc k)
  have up: "[i..<nat m] = i # [Suc i..<nat m]" using Suc.prems(1) by (simp add: upt_conv_Cons)
  have notlast: "int i \<noteq> m - 1" using Suc.prems(1) by linarith
  from Suc.prems(2) have "isl (attempt_result loads model agent (calls st + 0))" by blast
  then obtain e where e: "attempt_result loads model agent (calls st) = Inl e"
    by (cases "attempt_result loads model agent (calls st)") auto
  let ?st = "st\<lparr>calls := Suc (calls st), sleeps := sleeps st @ [500]\<rparr>"
  have "retry_loop loads model agent m [Suc i..<nat m] ?st =
           (Inl (RetriesExhausted agent m
                  (projl (attempt_result loads model agent (calls ?st + k)))),
            ?st\<lparr>calls := calls ?st + Suc k, sleeps := sleeps ?st @ replicate k 500\<rparr>)"
  proof (rule Suc.IH)
    show "nat m = Suc i + Suc k" using Suc.prems(1) by simp
    show "\<forall>j<Suc k. isl (attempt_result loads model agent (calls ?st + j))"
    proof (intro allI impI)
      fix j assume "j < Suc k"
      then have "Suc j < Suc (Suc k)" by simp
      with Suc.prems(2) have "isl (attempt_result loads model agent (calls st + Suc j))" by blast
      then show "isl (attempt_result loads model agent (calls ?st + j))" by simp
    qed
  qed
  then show ?case
    using e notlast by (simp add: up try_body_eq replicate_append_same)
qed

text \<open>
  Claim C3. For \<open>max_retries \<ge> 1\<close>, \<open>_call_with_retry\<close> makes at most \<open>max_retries\<close> calls
  of the external model. If attempt \<open>N\<close> (counted from 0, \<open>N < max_retries\<close>) is the first whose
  call and parse both succeed, the parsed record of that attempt is returned after exactly
  \<open>N + 1\<close> calls and \<open>N\<close> pauses of 500 ms. If all \<open>max_retries\<close> attempts raise, the error
  raised names the agent and carries the error of the last attempt, after \<open>max_retries\<close> calls
  and \<open>max_retries - 1\<close> pauses of 500 ms each.
\<close>

theorem call_with_retry_attempts:
  assumes "1 \<le> max_retries"
  shows "calls (snd (call_with_retry loads model max_retries agent st))
           \<le> calls st + nat max_retries
       \<and> (\<forall>N d. N < nat max_retries
              \<and> (\<forall>j<N. isl (attempt_result loads model agent (calls st + j)))
              \<and> attempt_result loads model agent (calls st + N) = Inr d
            \<longrightarrow> call_with_retry loads model max_retries agent st =
                  (Inr d, st\<lparr>calls := calls st + N + 1,
                              sleeps := sleeps st @ replicate N 500\<rparr>))
       \<and> ((\<forall>j<nat max_retries. isl (attempt_result loads model agent (calls st + j)))
            \<longrightarrow> call_with_retry loads model max_retries agent st =
                  (Inl (RetriesExhausted agent max_retries
                         (projl (attempt_result loads model agent
                                   (calls st + (nat max_retries - 1))))),
                   st\<lparr>calls := calls st + nat max_retries,
                      sleeps := sleeps st @ replicate (nat max_retries - 1) 500\<rparr>))"
proof (intro conjI allI impI)
  show "calls (snd (call_with_retry loads model max_retries agent st))
          \<le> calls st + nat max_retries"
    using retry_loop_calls_le[of loads model agent max_retries "[0..<nat max_retries]" st]
    by (simp add: call_with_retry_def)
next
  fix N d
  assume h: "N < nat max_retries
      \<and> (\<forall>j<N. isl (attempt_result loads model agent (calls st + j)))
      \<and> attempt_result loads model agent (calls st + N) = Inr d"
  then have "0 + N < nat max_retries" by simp
  from retry_loop_success[OF this] h
  show "call_with_retry loads model max_retries agent st =
          (Inr d, st\<lparr>calls := calls st + N + 1, sleeps := sleeps st @ replicate N 500\<rparr>)"
    by (simp add: call_with_retry_def)
next
  assume h: "\<forall>j<nat max_retries. isl (attempt_result loads model agent (calls st + j))"
  from assms obtain k where k: "nat max_retries = 0 + Suc k"
    by (cases "nat max_retries") auto
  then have k': "nat max_retries - 1 = k" by simp
  from h k have "\<forall>j<Suc k. isl (attempt_result loads model agent (calls st + j))" by simp
  from retry_loop_exhausted[OF k this]
  show "call_with_retry loads model max_retries agent st =
          (Inl (RetriesExhausted agent max_retries
                 (projl (attempt_result loads model agent (calls st + (nat max_retries - 1))))),
           st\<lparr>calls := calls st + nat max_retries,
              sleeps := sleeps st @ replicate (nat max_retries - 1) 500\<rparr>)"
    unfolding k' by (simp add: call_with_retry_def k)
qed

theorem call_with_retry_attempts_witness:
  "(1::int) \<le> 3
   \<and> call_with_retry json_loads (\<lambda>k. if k = 0 then Inl ''timeout'' else Inr ''{\"a\": 1}'') 3
        ''DiscoveryAgent'' \<lparr>calls = 0, sleeps = []\<rparr>
       = (Inr (JObj [(''a'', JInt 1)]), \<lparr>calls = 2, sleeps = [500]\<rparr>)
   \<and> call_with_retry json_loads (\<lambda>k. Inr ''no data today'') 3
        ''DiscoveryAgent'' \<lparr>calls = 0, sleeps = []\<rparr>
       = (Inl (RetriesExhausted ''DiscoveryAgent'' 3
                (ParsingFailed ''DiscoveryAgent'' (NoValidJson ''DiscoveryAgent''))),
          \<lparr>calls = 3, sleeps = [500, 500]\<rparr>)"
proof -
  let ?m1 = "\<lambda>k::nat. if k = 0 then Inl ''timeout'' else Inr ''{\"a\": 1}'' :: string + string"
  let ?m2 = "\<lambda>k::nat. Inr ''no data today'' :: string + string"
  let ?st = "\<lparr>calls = 0, sleeps = []\<rparr>"
  have one: "(1::int) \<le> 3" by simp
  have a0: "attempt_result json_loads ?m1 ''DiscoveryAgent'' 0
              = Inl (ApiCallFailed ''DiscoveryAgent'' ''timeout'')"
    by code_simp
  have a1: "attempt_result json_loads ?m1 ''DiscoveryAgent'' 1 = Inr (JObj [(''a'', JInt 1)])"
    by code_simp
  have b: "attempt_result json_loads ?m2 ''DiscoveryAgent'' j
             = Inl (ParsingFailed ''DiscoveryAgent'' (NoValidJson ''DiscoveryAgent''))" for j
  proof -
    have "parse_json_with_retry json_loads (strip ''no data today'') ''DiscoveryAgent''
            = Inl (ParsingFailed ''DiscoveryAgent'' (NoValidJson ''DiscoveryAgent''))"
      by code_simp
    then show ?thesis by (simp add: attempt_result_def try_body_def call_openai_def)
  qed
  note t1 = call_with_retry_attempts[OF one, of json_loads ?m1 "''DiscoveryAgent''" ?st]
  note t2 = call_with_retry_attempts[OF one, of json_loads ?m2 "''DiscoveryAgent''" ?st]
  have r1: "call_with_retry json_loads ?m1 3 ''DiscoveryAgent'' ?st
              = (Inr (JObj [(''a'', JInt 1)]), \<lparr>calls = 2, sleeps = [500]\<rparr>)"
  proof -
    have "(1::nat) < nat 3
        \<and> (\<forall>j<1. isl (attempt_result json_loads ?m1 ''DiscoveryAgent'' (calls ?st + j)))
        \<and> attempt_result json_loads ?m1 ''DiscoveryAgent'' (calls ?st + 1)
            = Inr (JObj [(''a'', JInt 1)])"
      using a0 a1 by simp
    with t1 have "call_with_retry json_loads ?m1 3 ''DiscoveryAgent'' ?st
          = (Inr (JObj [(''a'', JInt 1)]),
             ?st\<lparr>calls := calls ?st + 1 + 1, sleeps := sleeps ?st @ replicate 1 500\<rparr>)"
      by blast
    then show ?thesis by simp
  qed
  have r2: "call_with_retry json_loads ?m2 3 ''DiscoveryAgent'' ?st
              = (Inl (RetriesExhausted ''DiscoveryAgent'' 3
                       (ParsingFailed ''DiscoveryAgent'' (NoValidJson ''DiscoveryAgent''))),
                 \<lparr>calls = 3, sleeps = [500, 500]\<rparr>)"
  proof -
    have "\<forall>j<nat 3. isl (attempt_result json_loads ?m2 ''DiscoveryAgent'' (calls ?st + j))"
      using b by simp
    with t2 have "call_with_retry json_loads ?m2 3 ''DiscoveryAgent'' ?st =
                  (Inl (RetriesExhausted ''DiscoveryAgent'' 3
                         (projl (attempt_result json_loads ?m2 ''DiscoveryAgent''
                                   (calls ?st + (nat 3 - 1))))),
                   ?st\<lparr>calls := calls ?st + nat 3,
                      sleeps := sleeps ?st @ replicate (nat 3 - 1) 500\<rparr>)"
      by blast
    then show ?thesis by (simp add: b numeral_2_eq_2)
  qed
  from one r1 r2 show ?thesis by blast
qed

text \<open>
  Claim C10. When \<open>max_retries\<close> is zero or negative, \<open>_call_with_retry\<close> returns \<open>None\<close>:
  no call of the external model is made, nothing is raised and the state is unchanged, so
  the caller receives \<open>None\<close> in place of a record.
\<close>

theorem call_with_retry_no_attempts:
  "max_retries \<le> 0 \<Longrightarrow>
     call_with_retry loads model max_retries agent st = (Inr JNull, st)"
  by (simp add: call_with_retry_def)

theorem call_with_retry_no_attempts_witness:
  "(0::int) \<le> 0 \<and> (-2::int) \<le> 0
   \<and> call_with_retry json_loads (\<lambda>k. Inr ''{}'') 0 ''SemanticAgent'' \<lparr>calls = 0, sleeps = []\<rparr>
       = (Inr JNull, \<lparr>calls = 0, sleeps = []\<rparr>)
   \<and> call_with_retry json_loads (\<lambda>k. Inr ''{}'') (-2) ''SemanticAgent'' \<lparr>calls = 0, sleeps = []\<rparr>
       = (Inr JNull, \<lparr>calls = 0, sleeps = []\<rparr>)"
  using call_with_retry_no_attempts[of 0 json_loads "\<lambda>k. Inr ''{}''" "''SemanticAgent''"
          "\<lparr>calls = 0, sleeps = []\<rparr>"]
        call_with_retry_no_attempts[of "-2" json_loads "\<lambda>k. Inr ''{}''" "''SemanticAgent''"
          "\<lparr>calls = 0, sleeps = []\<rparr>"]
  by simp

section \<open>Properties of the parse step\<close>

lemma split_on_nonempty: "split_on sep s \<noteq> []"
  by (induction s) (auto split: list.splits)

lemma join_split_on: "join [sep] (split_on sep s) = s"
proof (induction s)
  case Nil
  then show ?case by simp
next
  case (Cons c cs)
  obtain l ls where sp: "split_on sep cs = l # ls"
    using split_on_nonempty[of sep cs] by (cases "split_on sep cs") auto
  show ?case
  proof (cases "c = sep")
    case True
    with Cons sp show ?thesis by simp
  next
    case False
    with Cons sp show ?thesis by (cases ls) auto
  qed
qed




lemma join_append:
  "xs \<noteq> [] \<Longrightarrow> ys \<noteq> [] \<Longrightarrow> join sep (xs @ ys) = join sep xs @ sep @ join sep ys"
proof (induction sep xs rule: join.induct)
  case (1 sep)
  then show ?case by simp
next
  case (2 sep x)
  then show ?case by (cases ys) auto
next
  case (3 sep x y ys)
  then show ?case by simp
qed

lemma sublist_join_span:
  assumes "js \<noteq> []"
  shows "sublist (join sep js) (join sep (pre @ js @ post))"
proof -
  obtain B where mid: "join sep (js @ post) = join sep js @ B"
  proof (cases "post = []")
    case True
    then have "join sep (js @ post) = join sep js @ []" by simp
    then show ?thesis by (rule that)
  next
    case False
    with assms have "join sep (js @ post) = join sep js @ (sep @ join sep post)"
      by (rule join_append)
    then show ?thesis by (rule that)
  qed
  obtain A where "join sep (pre @ js @ post) = A @ join sep (js @ post)"
  proof (cases "pre = []")
    case True
    then have "join sep (pre @ js @ post) = [] @ join sep (js @ post)" by simp
    then show ?thesis by (rule that)
  next
    case False
    moreover have "js @ post \<noteq> []" using assms by simp
    ultimately have "join sep (pre @ js @ post) = join sep pre @ sep @ join sep (js @ post)"
      by (rule join_append)
    then have "join sep (pre @ js @ post) = (join sep pre @ sep) @ join sep (js @ post)"
      by (simp only: append_assoc)
    then show ?thesis by (rule that)
  qed
  with mid have "join sep (pre @ js @ post) = A @ join sep js @ B" by (simp only:)
  then show ?thesis unfolding sublist_def by blast
qed

lemma scan_lines_started:
  "\<exists>js post. scan_lines lines acc bc True = acc @ js \<and> lines = js @ post"
proof (induction lines arbitrary: acc bc)
  case Nil
  then show ?case by simp
next
  case (Cons l lines)
  let ?bc = "bc + (int (count_char l (CHR ''{'')) - int (count_char l (CHR ''}'')))"
  show ?case
  proof (cases "?bc = 0")
    case True
    then have "scan_lines (l # lines) acc bc True = acc @ [l]" by (simp add: Let_def)
    then show ?thesis by auto
  next
    case False
    from Cons[of "acc @ [l]" ?bc] obtain js post where
      "scan_lines lines (acc @ [l]) ?bc True = (acc @ [l]) @ js" "lines = js @ post" by blast
    with False have "scan_lines (l # lines) acc bc True = acc @ (l # js) \<and> l # lines = (l # js) @ post"
      by (simp add: Let_def)
    then show ?thesis by blast
  qed
qed

lemma scan_lines_line_starts:
  "startswith (strip l) ''{'' \<Longrightarrow>
     scan_lines (l # rest) acc bc False = scan_lines (l # rest) acc bc True"
  by (simp add: Let_def)

lemma scan_lines_span:
  "\<exists>pre post. lines = pre @ scan_lines lines [] bc False @ post"
proof (induction lines)
  case Nil
  then show ?case by simp
next
  case (Cons l lines)
  show ?case
  proof (cases "startswith (strip l) ''{''")
    case True
    from scan_lines_started[of "l # lines" "[]" bc] obtain js post where
      a: "scan_lines (l # lines) [] bc True = [] @ js" and b: "l # lines = js @ post" by blast
    from True have "scan_lines (l # lines) [] bc False = scan_lines (l # lines) [] bc True"
      by (rule scan_lines_line_starts)
    with a have "scan_lines (l # lines) [] bc False = js" by (simp only: append_Nil)
    with b have "l # lines = [] @ scan_lines (l # lines) [] bc False @ post"
      by (simp only: append_Nil)
    then show ?thesis by blast
  next
    case False
    from Cons obtain pre post where "lines = pre @ scan_lines lines [] bc False @ post" by blast
    with False have "l # lines = (l # pre) @ scan_lines (l # lines) [] bc False @ post"
      by (simp add: Let_def)
    then show ?thesis by blast
  qed
qed

lemma scan_lines_hd:
  "scan_lines lines [] bc False \<noteq> []
     \<Longrightarrow> startswith (strip (hd (scan_lines lines [] bc False))) ''{''"
proof (induction lines)
  case Nil
  then show ?case by simp
next
  case (Cons l lines)
  show ?case
  proof (cases "startswith (strip l) ''{''")
    case True
    then have eq: "scan_lines (l # lines) [] bc False = scan_lines (l # lines) [] bc True"
      by (rule scan_lines_line_starts)
    obtain js post where js: "scan_lines (l # lines) [] bc True = [] @ js"
      and ls: "l # lines = js @ post"
      using scan_lines_started[of "l # lines" "[]" bc] by blast
    from Cons.prems eq js have "js \<noteq> []" by simp
    with ls have "hd js = l" by (cases js) auto
    with True eq js show ?thesis by simp
  next
    case False
    then have "scan_lines (l # lines) [] bc False = scan_lines lines [] bc False"
      by (simp add: Let_def)
    with Cons show ?thesis by simp
  qed
qed



text \<open>
  Claim C7, as amended. The parse step raises (a \<open>ValueError\<close>, never a record) on every
  empty or whitespace-only reply, and on every reply of which, after the removal of the
  fence markers, the decoder accepts neither the whole nor any run of consecutive lines
  whose first line begins, once trimmed, with an opening brace. Whether the braces are
  balanced does not matter.
\<close>

theorem parse_json_raises:
  "(strip response = [] \<longrightarrow>
      parse_json_with_retry loads response agent
        = Inl (ParsingFailed agent (EmptyResponse agent)))
   \<and> ((\<forall>v. loads (clean_markdown response) \<noteq> Decoded v)
        \<and> (\<forall>pre js post.
              split_on newline (clean_markdown response) = pre @ js @ post \<and> js \<noteq> []
              \<and> startswith (strip (hd js)) ''{''
              \<longrightarrow> (\<forall>v. loads (join [newline] js) \<noteq> Decoded v))
        \<longrightarrow> isl (parse_json_with_retry loads response agent))"
proof (intro conjI impI)
  assume "strip response = []"
  then show "parse_json_with_retry loads response agent
               = Inl (ParsingFailed agent (EmptyResponse agent))"
    by (simp add: parse_json_with_retry_def)
next
  let ?r = "clean_markdown response"
  let ?js = "scan_lines (split_on newline ?r) [] 0 False"
  assume h: "(\<forall>v. loads ?r \<noteq> Decoded v)
        \<and> (\<forall>pre js post.
              split_on newline ?r = pre @ js @ post \<and> js \<noteq> []
              \<and> startswith (strip (hd js)) ''{''
              \<longrightarrow> (\<forall>v. loads (join [newline] js) \<noteq> Decoded v))"
  then have whole: "loads ?r \<noteq> Decoded v" for v by blast
  obtain pre post where sp: "split_on newline ?r = pre @ ?js @ post"
    using scan_lines_span[of "split_on newline ?r" 0] by blast
  have span: "loads (join [newline] ?js) \<noteq> Decoded v" if ne: "?js \<noteq> []" for v
  proof -
    from ne have "startswith (strip (hd ?js)) ''{''" by (rule scan_lines_hd)
    with h sp ne show ?thesis by blast
  qed
  show "isl (parse_json_with_retry loads response agent)"
  proof (cases "loads ?r")
    case (Decoded v)
    with whole[of v] show ?thesis by simp
  next
    case (DecodeRaised msg)
    then show ?thesis by (simp add: parse_json_with_retry_def Let_def)
  next
    case DecodeError
    show ?thesis
    proof (cases "?js = []")
      case True
      with DecodeError show ?thesis by (simp add: parse_json_with_retry_def Let_def)
    next
      case False
      show ?thesis
      proof (cases "loads (join [newline] ?js)")
        case (Decoded v)
        with span[OF False, of v] show ?thesis by simp
      next
        case second: DecodeError
        with DecodeError False show ?thesis
          by (simp add: parse_json_with_retry_def Let_def)
      next
        case (DecodeRaised msg)
        with DecodeError False show ?thesis
          by (simp add: parse_json_with_retry_def Let_def)
      qed
    qed
  qed
qed

text \<open>
  Claim C7 as stated fails: a reply with unbalanced braces and no object in it is returned
  when it is a JSON text of another kind, here a string; and fence markers inside a reply
  that starts with the json fence are removed before the decoding.
\<close>

theorem parse_json_raises_counterexample:
  "count_char ''\"{\"'' (CHR ''{'') = 1 \<and> count_char ''\"{\"'' (CHR ''}'') = 0
   \<and> parse_json_with_retry json_loads ''\"{\"'' ''SemanticAgent'' = Inr (JStr ''{'')
   \<and> parse_json_with_retry json_loads
        (fence @ ''json{'' @ fence @ ''}'' @ [newline] @ ''{'') ''SemanticAgent''
       = Inr (JObj [])"
  by code_simp

theorem parse_json_raises_witness:
  "strip [CHR '' '', newline, CHR '' ''] = []
   \<and> parse_json_with_retry json_loads [CHR '' '', newline, CHR '' ''] ''SemanticAgent''
       = Inl (ParsingFailed ''SemanticAgent'' (EmptyResponse ''SemanticAgent''))
   \<and> isl (parse_json_with_retry json_loads ''{\"a\": 1'' ''SemanticAgent'')
   \<and> json_loads ''42'' = Decoded (JInt 42)
   \<and> isl (parse_json_with_retry json_loads (''Answer: {'' @ [newline] @ ''42'') ''SemanticAgent'')"
proof -
  have ws: "strip [CHR '' '', newline, CHR '' ''] = []" by code_simp
  have cm: "split_on newline (clean_markdown ''{\"a\": 1'') = [''{\"a\": 1'']" by code_simp
  have dec: "json_loads (join [newline] [''{\"a\": 1'']) = DecodeError" by code_simp
  have w1: "json_loads (clean_markdown ''{\"a\": 1'') = DecodeError" by code_simp
  have none: "\<forall>pre js post.
          split_on newline (clean_markdown ''{\"a\": 1'') = pre @ js @ post \<and> js \<noteq> []
          \<and> startswith (strip (hd js)) ''{''
          \<longrightarrow> (\<forall>v. json_loads (join [newline] js) \<noteq> Decoded v)"
  proof (intro allI impI)
    fix pre js post v
    assume "split_on newline (clean_markdown ''{\"a\": 1'') = pre @ js @ post \<and> js \<noteq> []
            \<and> startswith (strip (hd js)) ''{''"
    then have "[''{\"a\": 1''] = pre @ js @ post" and "js \<noteq> []" by (simp_all add: cm)
    then have "js = [''{\"a\": 1'']"
      by (cases pre; cases js) auto
    with dec show "json_loads (join [newline] js) \<noteq> Decoded v" by simp
  qed
  let ?p = "''Answer: {'' @ [newline] @ ''42''"
  have cm2: "split_on newline (clean_markdown ?p) = [''Answer: {'', ''42'']" by code_simp
  have w2: "json_loads (clean_markdown ?p) = DecodeError" by code_simp
  have s1: "\<not> startswith (strip ''Answer: {'') ''{''" by code_simp
  have s2: "\<not> startswith (strip ''42'') ''{''" by code_simp
  have none2: "\<forall>pre js post.
          split_on newline (clean_markdown ?p) = pre @ js @ post \<and> js \<noteq> []
          \<and> startswith (strip (hd js)) ''{''
          \<longrightarrow> (\<forall>v. json_loads (join [newline] js) \<noteq> Decoded v)"
  proof (intro allI impI)
    fix pre js post v
    assume a: "split_on newline (clean_markdown ?p) = pre @ js @ post \<and> js \<noteq> []
            \<and> startswith (strip (hd js)) ''{''"
    then have "hd js \<in> set js" by simp
    moreover from a have "set js \<subseteq> set [''Answer: {'', ''42'']"
      unfolding cm2[symmetric] by auto
    ultimately have "hd js = ''Answer: {'' \<or> hd js = ''42''" by auto
    with a s1 s2 show "json_loads (join [newline] js) \<noteq> Decoded v" by auto
  qed
  have n: "json_loads ''42'' = Decoded (JInt 42)" by code_simp
  note t1 = parse_json_raises[of "[CHR '' '', newline, CHR '' '']" json_loads "''SemanticAgent''"]
  note t2 = parse_json_raises[of "''{\"a\": 1''" json_loads "''SemanticAgent''"]
  note t3 = parse_json_raises[of ?p json_loads "''SemanticAgent''"]
  from t1 ws have "parse_json_with_retry json_loads [CHR '' '', newline, CHR '' ''] ''SemanticAgent''
       = Inl (ParsingFailed ''SemanticAgent'' (EmptyResponse ''SemanticAgent''))" by blast
  moreover from t2 none w1 have "isl (parse_json_with_retry json_loads ''{\"a\": 1'' ''SemanticAgent'')"
    by simp
  moreover from t3 none2 w2 have "isl (parse_json_with_retry json_loads ?p ''SemanticAgent'')"
    by simp
  ultimately show ?thesis using ws n by blast
qed




section \<open>Properties of the schema compression\<close>

lemma foldl_update_distinct:
  "distinct (map fst acc) \<Longrightarrow>
     distinct (map fst (foldl (\<lambda>d (k, v). AList.update k v d) acc xs))"
  by (induction xs arbitrary: acc) (auto simp: distinct_update split: prod.splits)

lemma update_new_key: "k \<notin> fst ` set acc \<Longrightarrow> AList.update k v acc = acc @ [(k, v)]"
  by (induction acc) auto

lemma foldl_update_append:
  "distinct (map fst (acc @ xs)) \<Longrightarrow>
     foldl (\<lambda>d (k, v). AList.update k v d) acc xs = acc @ xs"
proof (induction xs arbitrary: acc)
  case Nil
  then show ?case by simp
next
  case (Cons x xs)
  obtain k v where x: "x = (k, v)" by (cases x)
  from Cons.prems have "k \<notin> fst ` set acc" by (auto simp: x)
  then have u: "AList.update k v acc = acc @ [(k, v)]" by (rule update_new_key)
  from Cons.prems have "distinct (map fst ((acc @ [(k, v)]) @ xs))" by (simp add: x)
  from Cons.IH[OF this] show ?case by (simp add: x u)
qed

lemma foldl_update_subset:
  "set (foldl (\<lambda>d (k, v). AList.update k v d) acc xs) \<subseteq> set acc \<union> set xs"
proof (induction xs arbitrary: acc)
  case Nil
  then show ?case by simp
next
  case (Cons x xs)
  obtain k v where x: "x = (k, v)" by (cases x)
  have "set (AList.update k v acc) \<subseteq> set acc \<union> {(k, v)}"
    by (induction acc) auto
  with Cons[of "AList.update k v acc"] show ?case by (auto simp: x)
qed

lemma dict_of_distinct: "distinct (map fst (dict_of xs))"
  unfolding dict_of_def by (rule foldl_update_distinct) simp

lemma dict_of_id: "distinct (map fst xs) \<Longrightarrow> dict_of xs = xs"
  unfolding dict_of_def using foldl_update_append[of "[]" xs] by simp

lemma dict_of_subset: "set (dict_of xs) \<subseteq> set xs"
  unfolding dict_of_def using foldl_update_subset[of "[]" xs] by simp

lemma compress_spec_idem: "compress_spec (compress_spec v) = compress_spec v"
proof (cases v)
  case (JObj d)
  let ?P = "\<lambda>(key, value). key \<in> set kept_keys"
  let ?D = "dict_of (filter ?P d)"
  have "set ?D \<subseteq> set (filter ?P d)" by (rule dict_of_subset)
  then have "filter ?P ?D = ?D" by (auto simp: filter_id_conv)
  moreover have "dict_of ?D = ?D" by (rule dict_of_id) (rule dict_of_distinct)
  ultimately show ?thesis by (simp add: JObj)
qed simp_all

lemma compress_schema_idem:
  assumes "compress_schema x = Inr y"
  shows "compress_schema y = Inr y"
proof (cases x)
  case (JObj kvs)
  let ?f = "\<lambda>(param_name, param_spec). (param_name, compress_spec param_spec)"
  let ?D = "dict_of (map ?f kvs)"
  from assms JObj have y: "y = JObj ?D" by simp
  have sub: "set ?D \<subseteq> set (map ?f kvs)" by (rule dict_of_subset)
  have "map ?f ?D = ?D"
  proof (rule map_idI)
    fix p assume "p \<in> set ?D"
    with sub obtain k spec where "p = (k, compress_spec spec)" by auto
    then show "?f p = p" by (simp add: compress_spec_idem)
  qed
  moreover have "dict_of ?D = ?D" by (rule dict_of_id) (rule dict_of_distinct)
  ultimately show ?thesis by (simp add: y)
qed (use assms in simp_all)

lemma compress_component_idem:
  assumes "compress_component c = Inr c'"
  shows "compress_component c' = Inr c'"
proof (cases c)
  case (JObj kvs)
  show ?thesis
  proof (cases "map_of kvs ''params_schema''")
    case None
    with assms JObj show ?thesis by auto
  next
    case (Some schema)
    with assms JObj obtain cs where cs: "compress_schema schema = Inr cs"
      and c': "c' = JObj (AList.update ''params_schema'' cs kvs)"
      by (auto split: sum.splits)
    from cs have "compress_schema cs = Inr cs" by (rule compress_schema_idem)
    then show ?thesis by (simp add: c' update_conv')
  qed
next
  case (JArr xs)
  with assms show ?thesis by (auto split: if_splits)
qed (use assms in simp_all)

lemma compress_schema_for_llm_idem:
  "compress_schema_for_llm cs = Inr cs' \<Longrightarrow> compress_schema_for_llm cs' = Inr cs'"
proof (induction cs arbitrary: cs')
  case Nil
  then show ?case by simp
next
  case (Cons c cs)
  from Cons.prems obtain d ds where d: "compress_component c = Inr d"
    and ds: "compress_schema_for_llm cs = Inr ds" and cs': "cs' = d # ds"
    by (auto split: sum.splits)
  from compress_component_idem[OF d] Cons.IH[OF ds] show ?case by (simp add: cs')
qed

lemma compress_schema_for_llm_map:
  "list_all2 (\<lambda>c c'. compress_component c = Inr c') cs cs'
     \<Longrightarrow> compress_schema_for_llm cs = Inr cs'"
  by (induction cs cs' rule: list_all2_induct) simp_all

text \<open>
  Claim C8. Compressing twice is compressing once, for \<open>_compress_schema\<close> and for
  \<open>_compress_schema_for_llm\<close>, on every input (an input on which the first pass raises
  raises in both). On a schema dictionary, every parameter keeps its name and position; a
  specification that is a dictionary keeps exactly its items with the keys \<open>type\<close>,
  \<open>default\<close>, \<open>range\<close>, \<open>options\<close>, and any other specification is passed on unchanged.
  \<open>_compress_schema_for_llm\<close> compresses the components one by one: a component keeps all
  its items, with the schema under \<open>params_schema\<close> replaced in place by its compression,
  and a component without this key is passed on unchanged.
\<close>

theorem compress_idempotent:
  "(case compress_schema x of Inl e \<Rightarrow> Inl e | Inr y \<Rightarrow> compress_schema y) = compress_schema x
   \<and> (case compress_schema_for_llm cs of Inl e \<Rightarrow> Inl e | Inr ys \<Rightarrow> compress_schema_for_llm ys)
       = compress_schema_for_llm cs
   \<and> (distinct (map fst schema) \<longrightarrow>
        compress_schema (JObj schema)
          = Inr (JObj (map (\<lambda>(param_name, param_spec). (param_name, compress_spec param_spec))
                        schema)))
   \<and> (distinct (map fst d) \<longrightarrow>
        compress_spec (JObj d) = JObj (filter (\<lambda>(key, value). key \<in> set kept_keys) d))
   \<and> (\<not> is_dict v \<longrightarrow> compress_spec v = v)
   \<and> (map_of component ''params_schema'' = Some (JObj schema) \<and> distinct (map fst schema) \<longrightarrow>
        compress_component (JObj component)
          = Inr (JObj (AList.update ''params_schema''
                         (JObj (map (\<lambda>(param_name, param_spec).
                                       (param_name, compress_spec param_spec)) schema))
                         component)))
   \<and> (map_of component ''params_schema'' = None \<longrightarrow>
        compress_component (JObj component) = Inr (JObj component))
   \<and> (list_all2 (\<lambda>c c'. compress_component c = Inr c') components compressed \<longrightarrow>
        compress_schema_for_llm components = Inr compressed)"
proof (intro conjI impI)
  show "(case compress_schema x of Inl e \<Rightarrow> Inl e | Inr y \<Rightarrow> compress_schema y)
          = compress_schema x"
    by (cases "compress_schema x") (simp_all add: compress_schema_idem)
  show "(case compress_schema_for_llm cs of Inl e \<Rightarrow> Inl e | Inr ys \<Rightarrow> compress_schema_for_llm ys)
          = compress_schema_for_llm cs"
    by (cases "compress_schema_for_llm cs") (simp_all add: compress_schema_for_llm_idem)
next
  assume "distinct (map fst schema)"
  then have "distinct (map fst (map (\<lambda>(param_name, param_spec).
                 (param_name, compress_spec param_spec)) schema))"
    by (simp add: comp_def case_prod_unfold)
  then show "compress_schema (JObj schema)
          = Inr (JObj (map (\<lambda>(param_name, param_spec). (param_name, compress_spec param_spec))
                        schema))"
    by (simp add: dict_of_id)
next
  assume "distinct (map fst d)"
  then have "distinct (map fst (filter (\<lambda>(key, value). key \<in> set kept_keys) d))"
    by (simp add: distinct_map_filter)
  then show "compress_spec (JObj d) = JObj (filter (\<lambda>(key, value). key \<in> set kept_keys) d)"
    by (simp add: dict_of_id)
next
  assume "\<not> is_dict v"
  then show "compress_spec v = v" by (cases v) simp_all
next
  assume h: "map_of component ''params_schema'' = Some (JObj schema)
             \<and> distinct (map fst schema)"
  then have "distinct (map fst (map (\<lambda>(param_name, param_spec).
                 (param_name, compress_spec param_spec)) schema))"
    by (simp add: comp_def case_prod_unfold)
  then have "compress_schema (JObj schema)
          = Inr (JObj (map (\<lambda>(param_name, param_spec). (param_name, compress_spec param_spec))
                        schema))"
    by (simp add: dict_of_id)
  with h show "compress_component (JObj component)
          = Inr (JObj (AList.update ''params_schema''
                         (JObj (map (\<lambda>(param_name, param_spec).
                                       (param_name, compress_spec param_spec)) schema))
                         component))"
    by simp
next
  assume "map_of component ''params_schema'' = None"
  then show "compress_component (JObj component) = Inr (JObj component)" by simp
next
  assume "list_all2 (\<lambda>c c'. compress_component c = Inr c') components compressed"
  then show "compress_schema_for_llm components = Inr compressed"
    by (rule compress_schema_for_llm_map)
qed

theorem compress_idempotent_witness:
  "compress_schema
     (JObj [(''n'', JObj [(''type'', JStr ''int''), (''description'', JStr ''sites''),
                          (''default'', JInt 8)]),
            (''mode'', JStr ''fast'')])
   = Inr (JObj [(''n'', JObj [(''type'', JStr ''int''), (''default'', JInt 8)]),
                (''mode'', JStr ''fast'')])
   \<and> compress_spec (JObj [(''type'', JStr ''int''), (''description'', JStr ''sites''),
                          (''default'', JInt 8)])
       = JObj [(''type'', JStr ''int''), (''default'', JInt 8)]
   \<and> compress_spec (JStr ''fast'') = JStr ''fast''
   \<and> compress_schema_for_llm
       [JObj [(''name'', JStr ''Spin.TFIM.Hamiltonian''),
              (''params_schema'',
               JObj [(''n'', JObj [(''type'', JStr ''int''), (''description'', JStr ''sites''),
                                   (''default'', JInt 8)]),
                     (''mode'', JStr ''fast'')]),
              (''kind'', JStr ''hamiltonian'')],
        JObj [(''name'', JStr ''Backend.Estimator''), (''kind'', JStr ''backend'')]]
     = Inr [JObj [(''name'', JStr ''Spin.TFIM.Hamiltonian''),
                  (''params_schema'',
                   JObj [(''n'', JObj [(''type'', JStr ''int''), (''default'', JInt 8)]),
                         (''mode'', JStr ''fast'')]),
                  (''kind'', JStr ''hamiltonian'')],
            JObj [(''name'', JStr ''Backend.Estimator''), (''kind'', JStr ''backend'')]]"
proof -
  let ?d = "[(''type'', JStr ''int''), (''description'', JStr ''sites''), (''default'', JInt 8)]"
  let ?schema = "[(''n'', JObj ?d), (''mode'', JStr ''fast'')]"
  let ?c1 = "[(''name'', JStr ''Spin.TFIM.Hamiltonian''), (''params_schema'', JObj ?schema),
              (''kind'', JStr ''hamiltonian'')]"
  let ?c2 = "[(''name'', JStr ''Backend.Estimator''), (''kind'', JStr ''backend'')]"
  let ?r1 = "JObj [(''name'', JStr ''Spin.TFIM.Hamiltonian''),
                  (''params_schema'',
                   JObj [(''n'', JObj [(''type'', JStr ''int''), (''default'', JInt 8)]),
                         (''mode'', JStr ''fast'')]),
                  (''kind'', JStr ''hamiltonian'')]"
  note t = compress_idempotent[of "JNull" "[]" ?schema ?d "JStr ''fast''" ?c1
                                  "[JObj ?c1, JObj ?c2]" "[?r1, JObj ?c2]"]
  note u = compress_idempotent[of "JNull" "[]" ?schema ?d "JStr ''fast''" ?c2]
  have d1: "distinct (map fst ?schema)" by simp
  have d2: "distinct (map fst ?d)" by simp
  have d3: "\<not> is_dict (JStr ''fast'')" by simp
  from t d2 have s: "compress_spec (JObj ?d)
                  = JObj (filter (\<lambda>(key, value). key \<in> set kept_keys) ?d)" by blast
  then have s': "compress_spec (JObj ?d) = JObj [(''type'', JStr ''int''), (''default'', JInt 8)]"
    by (simp add: kept_keys_def)
  from t d3 have v: "compress_spec (JStr ''fast'') = JStr ''fast''" by blast
  from t d1 have "compress_schema (JObj ?schema)
          = Inr (JObj (map (\<lambda>(param_name, param_spec). (param_name, compress_spec param_spec))
                        ?schema))" by blast
  then have cs: "compress_schema (JObj ?schema)
          = Inr (JObj [(''n'', JObj [(''type'', JStr ''int''), (''default'', JInt 8)]),
                       (''mode'', JStr ''fast'')])"
    using s' by simp
  have "map_of ?c1 ''params_schema'' = Some (JObj ?schema) \<and> distinct (map fst ?schema)"
    by simp
  with t have "compress_component (JObj ?c1)
          = Inr (JObj (AList.update ''params_schema''
                         (JObj (map (\<lambda>(param_name, param_spec).
                                       (param_name, compress_spec param_spec)) ?schema))
                         ?c1))" by blast
  then have c1: "compress_component (JObj ?c1) = Inr ?r1" using s' by simp
  have "map_of ?c2 ''params_schema'' = None" by simp
  with u have c2: "compress_component (JObj ?c2) = Inr (JObj ?c2)" by blast
  from c1 c2 have "list_all2 (\<lambda>c c'. compress_component c = Inr c')
                     [JObj ?c1, JObj ?c2] [?r1, JObj ?c2]" by simp
  with t have "compress_schema_for_llm [JObj ?c1, JObj ?c2] = Inr [?r1, JObj ?c2]" by blast
  with cs s' v show ?thesis by blast
qed

section \<open>Properties of the relevance filter\<close>

lemma force_include_append: "\<exists>added. force_include cs f = f @ added"
proof (induction cs arbitrary: f)
  case Nil
  then show ?case by simp
next
  case (Cons c cs)
  show ?case
  proof (cases "core_kind c \<and> \<not> py_in c f")
    case True
    from Cons[of "f @ [c]"] obtain added where "force_include cs (f @ [c]) = (f @ [c]) @ added"
      by blast
    with True have "force_include (c # cs) f = f @ (c # added)" by simp
    then show ?thesis by blast
  next
    case False
    with Cons[of f] show ?thesis by auto
  qed
qed

lemma py_in_append: "py_in c f \<Longrightarrow> py_in c (f @ added)"
  by (auto simp: py_in_def list_ex_iff)

lemma py_in_force_include_mono: "py_in c f \<Longrightarrow> py_in c (force_include cs f)"
  using force_include_append[of cs f] by (auto intro: py_in_append)

lemma force_include_covers:
  "c \<in> set cs \<Longrightarrow> core_kind c \<Longrightarrow> py_in c (force_include cs f)"
proof (induction cs arbitrary: f)
  case Nil
  then show ?case by simp
next
  case (Cons x cs)
  show ?case
  proof (cases "c = x")
    case True
    show ?thesis
    proof (cases "py_in c f")
      case True
      then show ?thesis by (rule py_in_force_include_mono)
    next
      case False
      have "py_in c (f @ [c])" by (simp add: py_in_def list_ex_iff)
      then have "py_in c (force_include cs (f @ [c]))" by (rule py_in_force_include_mono)
      with False \<open>c = x\<close> Cons.prems(2) show ?thesis by simp
    qed
  next
    case False
    with Cons.prems have "c \<in> set cs" by simp
    from Cons.IH[OF this Cons.prems(2)] show ?thesis by simp
  qed
qed

lemma py_eq_items_lookup:
  "py_eq_items d e \<Longrightarrow> (k, v) \<in> set d \<Longrightarrow> \<exists>w. map_of e k = Some w \<and> py_eq v w"
  by (induction d) (auto split: option.splits)

lemma py_eq_same_name:
  assumes "py_eq c r" and "entry_name c = Some n"
  shows "entry_name r = Some n"
proof -
  from assms(2) obtain d where c: "c = JObj d" by (cases c) auto
  with assms(1) obtain e where r: "r = JObj e" and items: "py_eq_items d e"
    by (cases r) auto
  from assms(2) c have "map_of d ''name'' = Some (JStr n)"
    by (auto split: option.splits json.splits)
  then have "(''name'', JStr n) \<in> set d" by (rule map_of_SomeD)
  from py_eq_items_lookup[OF items this] obtain w where
    "map_of e ''name'' = Some w" "py_eq (JStr n) w" by blast
  then show ?thesis by (simp add: r)
qed

lemma filter_scored_append:
  "filter_scored domain algorithm cs f = Inr r \<Longrightarrow> \<exists>kept. r = f @ kept \<and> set kept \<subseteq> set cs"
proof (induction cs arbitrary: f)
  case Nil
  then show ?case by simp
next
  case (Cons c cs)
  from Cons.prems obtain f' where f': "filter_scored domain algorithm cs f' = Inr r"
    and "f' = f @ [c] \<or> f' = f"
    by (auto split: sum.splits if_splits)
  from Cons.IH[OF f'] obtain kept where "r = f' @ kept" "set kept \<subseteq> set cs" by blast
  with \<open>f' = f @ [c] \<or> f' = f\<close> show ?case by auto
qed

lemma get_lower_typed:
  "str_or_absent (map_of d key) \<Longrightarrow> \<exists>s. get_lower (JObj d) key = Inr s"
  by (cases "map_of d key" rule: str_or_absent.cases) auto

lemma lower_all_typed: "list_all is_str ts \<Longrightarrow> \<exists>ss. lower_all ts = Inr ss"
proof (induction ts)
  case Nil
  then show ?case by simp
next
  case (Cons t ts)
  then obtain s where "t = JStr s" by (cases t) auto
  with Cons show ?case by auto
qed

lemma lower_tags_typed:
  assumes "well_typed_component c"
  shows "\<exists>tags. lower_tags c = Inr tags"
proof -
  from assms obtain d where c: "c = JObj d" by (cases c) auto
  show ?thesis
  proof (cases "map_of d ''tags''")
    case None
    then show ?thesis by (simp add: c)
  next
    case (Some t)
    with assms c obtain ts where "t = JArr ts" "list_all is_str ts"
      by (cases t) auto
    with Some lower_all_typed[of ts] show ?thesis by (auto simp: c)
  qed
qed

lemma filter_scored_typed:
  "list_all well_typed_component cs \<Longrightarrow> \<exists>r. filter_scored domain algorithm cs f = Inr r"
proof (induction cs arbitrary: f)
  case Nil
  then show ?case by simp
next
  case (Cons c cs)
  then have wt: "well_typed_component c" and rest: "list_all well_typed_component cs" by simp_all
  from wt obtain d where c: "c = JObj d" by (cases c) auto
  from lower_tags_typed[OF wt] obtain tags where t: "lower_tags c = Inr tags" by blast
  from wt c get_lower_typed[of d "''kind''"] obtain kind where k: "get_lower c ''kind'' = Inr kind"
    by auto
  from wt c get_lower_typed[of d "''name''"] obtain name where n: "get_lower c ''name'' = Inr name"
    by auto
  from Cons.IH[OF rest] show ?case by (simp add: t k n)
qed

lemma py_in_append_iff: "py_in c (f @ acc) \<longleftrightarrow> py_in c f \<or> py_in c acc"
  by (auto simp: py_in_def list_ex_iff)

lemma py_eq_core_kind:
  assumes "py_eq c r" and "core_kind c"
  shows "core_kind r"
proof -
  from assms(2) obtain d where c: "c = JObj d" by (cases c) auto
  with assms(1) obtain e where r: "r = JObj e" and items: "py_eq_items d e"
    by (cases r) auto
  from assms(2) c obtain k where k: "map_of d ''kind'' = Some (JStr k)"
    and kk: "k \<in> set [''core'', ''backend'', ''algorithm'']"
    by (auto split: option.splits json.splits)
  from k have "(''kind'', JStr k) \<in> set d" by (rule map_of_SomeD)
  from py_eq_items_lookup[OF items this] obtain w where
    "map_of e ''kind'' = Some w" "py_eq (JStr k) w" by blast
  with kk show ?thesis by (simp add: r)
qed

lemma force_include_subset: "set (force_include cs f) \<subseteq> set f \<union> set cs"
proof (induction cs arbitrary: f)
  case Nil
  then show ?case by simp
next
  case (Cons c cs)
  from Cons[of "f @ [c]"] Cons[of f] show ?case by auto
qed

lemma filter_scored_subset:
  "filter_scored domain algorithm cs [] = Inr r \<Longrightarrow> set r \<subseteq> set cs"
  using filter_scored_append[of domain algorithm cs "[]" r] by auto

lemma force_include_exact:
  assumes "distinct (filter core_kind cs)"
    and "\<forall>c\<in>set cs. \<forall>c'\<in>set cs. core_kind c \<and> core_kind c' \<and> c \<noteq> c' \<longrightarrow> \<not> py_eq c c'"
    and "\<forall>a\<in>set acc. a \<notin> set cs \<and> (\<forall>c\<in>set cs. core_kind c \<longrightarrow> \<not> py_eq c a)"
  shows "force_include cs (f @ acc)
           = f @ acc @ filter (\<lambda>c. core_kind c \<and> \<not> py_in c f) cs"
  using assms
proof (induction cs arbitrary: acc)
  case Nil
  then show ?case by simp
next
  case (Cons c cs)
  have d: "distinct (filter core_kind cs)" using Cons.prems(1) by (simp split: if_splits)
  have p: "\<forall>x\<in>set cs. \<forall>y\<in>set cs. core_kind x \<and> core_kind y \<and> x \<noteq> y \<longrightarrow> \<not> py_eq x y"
    using Cons.prems(2) by simp
  have a: "\<forall>a\<in>set acc. a \<notin> set cs \<and> (\<forall>x\<in>set cs. core_kind x \<longrightarrow> \<not> py_eq x a)"
    using Cons.prems(3) by simp
  show ?case
  proof (cases "core_kind c \<and> \<not> py_in c f")
    case True
    have "\<not> py_in c acc"
    proof
      assume "py_in c acc"
      then obtain r where "r \<in> set acc" "r = c \<or> py_eq c r"
        by (auto simp: py_in_def list_ex_iff)
      with Cons.prems(3) True show False by auto
    qed
    with True have step: "force_include (c # cs) (f @ acc) = force_include cs (f @ (acc @ [c]))"
      by (simp add: py_in_append_iff)
    from True Cons.prems(1) have "c \<notin> set cs" by auto
    moreover have "\<forall>x\<in>set cs. core_kind x \<longrightarrow> \<not> py_eq x c"
    proof (intro ballI impI)
      fix x assume "x \<in> set cs" "core_kind x"
      with \<open>c \<notin> set cs\<close> True Cons.prems(2) show "\<not> py_eq x c" by auto
    qed
    ultimately have
      "\<forall>a\<in>set (acc @ [c]). a \<notin> set cs \<and> (\<forall>x\<in>set cs. core_kind x \<longrightarrow> \<not> py_eq x a)"
      using a by simp
    from Cons.IH[OF d p this] step True show ?thesis by simp
  next
    case False
    then have "force_include (c # cs) (f @ acc) = force_include cs (f @ acc)"
      by (auto simp: py_in_append_iff)
    with Cons.IH[OF d p a] False show ?thesis by auto
  qed
qed

lemma named_has_name: "named_component c \<Longrightarrow> \<exists>n. entry_name c = Some n"
proof (cases c)
  case (JObj d)
  assume "named_component c"
  with JObj have "is_str (case map_of d ''name'' of None \<Rightarrow> JNull | Some v \<Rightarrow> v)" by simp
  then obtain n where "map_of d ''name'' = Some (JStr n)"
    by (cases "map_of d ''name''") (auto elim: is_str.elims)
  with JObj show ?thesis by simp
qed simp_all

lemma named_well_typed:
  "list_all named_component registry \<Longrightarrow> list_all well_typed_component registry"
proof (induction registry)
  case Nil
  then show ?case by simp
next
  case (Cons c cs)
  then have "named_component c" by simp
  then have "well_typed_component c" by (cases c) simp_all
  with Cons show ?case by simp
qed

lemma unique_names_unequal:
  assumes "list_all named_component registry" and "distinct (map entry_name registry)"
    and "c \<in> set registry" and "c' \<in> set registry" and "py_eq c c'"
  shows "c = c'"
proof -
  from assms(1,3) have "named_component c" by (simp add: list_all_iff)
  then obtain n where n: "entry_name c = Some n" using named_has_name by blast
  with assms(5) have "entry_name c' = Some n" by (rule py_eq_same_name)
  moreover from assms(2) have "inj_on entry_name (set registry)" by (simp add: distinct_map)
  ultimately have "entry_name c = entry_name c'" and "inj_on entry_name (set registry)"
    using n by simp_all
  from inj_onD[OF this(2) this(1) assms(3,4)] show ?thesis .
qed

lemma unique_names_py_in:
  assumes "list_all named_component registry" and "distinct (map entry_name registry)"
    and "c \<in> set registry" and "set xs \<subseteq> set registry"
  shows "py_in c xs \<longleftrightarrow> c \<in> set xs"
proof
  assume "py_in c xs"
  then obtain r where r: "r \<in> set xs" and "r = c \<or> py_eq c r"
    by (auto simp: py_in_def list_ex_iff)
  then have "r = c" using unique_names_unequal[OF assms(1,2,3), of r] assms(4) by auto
  with r show "c \<in> set xs" by simp
next
  assume "c \<in> set xs"
  then show "py_in c xs" by (auto simp: py_in_def list_ex_iff)
qed

lemma floor_of_unequal:
  assumes res: "filter_relevant_components task_card registry = Inr result"
    and dist: "distinct (filter core_kind registry)"
    and pw: "\<forall>c\<in>set registry. \<forall>c'\<in>set registry.
               core_kind c \<and> core_kind c' \<and> c \<noteq> c' \<longrightarrow> \<not> py_eq c c'"
    and three: "3 \<le> length (filter core_kind registry)"
  shows "3 \<le> length result"
proof -
  from res obtain domain algorithm filtered where
    f: "filter_scored domain algorithm registry [] = Inr filtered"
    and r: "result = (if length filtered < 3 then force_include registry filtered else filtered)"
    by (auto simp: filter_relevant_components_def split: sum.splits)
  show ?thesis
  proof (cases "length filtered < 3")
    case False
    with r show ?thesis by simp
  next
    case True
    with r have rr: "result = force_include registry filtered" by simp
    from filter_scored_subset[OF f] force_include_subset[of registry filtered]
    have sub: "set result \<subseteq> set registry" unfolding rr by auto
    have "set (filter core_kind registry) \<subseteq> set result"
    proof
      fix c assume "c \<in> set (filter core_kind registry)"
      then have c: "c \<in> set registry" "core_kind c" by simp_all
      then have "py_in c result" unfolding rr by (rule force_include_covers)
      then obtain x where x: "x \<in> set result" and e: "x = c \<or> py_eq c x"
        by (auto simp: py_in_def list_ex_iff)
      show "c \<in> set result"
      proof (cases "x = c")
        case True
        with x show ?thesis by simp
      next
        case False
        with e have pe: "py_eq c x" by simp
        with c have "core_kind x" using py_eq_core_kind by blast
        with pw c x sub False pe show ?thesis by blast
      qed
    qed
    then have "card (set (filter core_kind registry)) \<le> card (set result)"
      by (rule card_mono[rotated]) simp
    moreover have "card (set (filter core_kind registry)) = length (filter core_kind registry)"
      using dist by (rule distinct_card)
    ultimately show ?thesis using three card_length[of result] by linarith
  qed
qed

text \<open>
  Claim C5. The task card and the catalog are those of the data model: the domain and the
  algorithm of the task card are strings, every catalog entry has a string for its name and
  its kind and a list of strings for its tags, and no two entries have the same name. Then
  the filter returns (it raises nothing), and when the catalog contains at least three
  entries of kind \<open>core\<close>, \<open>backend\<close> or \<open>algorithm\<close> it returns at least three entries,
  whatever the scores are. Whenever fewer than three entries survive the cutoff, the result
  is the survivors followed by every catalog entry of one of the three kinds that is not
  among the survivors, in catalog order. The names are not needed for the floor: it holds
  for every catalog whose entries of the three kinds are pairwise unequal, whenever the
  filter returns; and on every catalog, with fewer than three survivors, the result is the
  survivors followed by forced entries, and every catalog entry of one of the three kinds
  is present in it (itself or an equal entry).
\<close>

theorem filter_floor:
  "(well_typed_task task_card \<and> list_all named_component registry
      \<and> distinct (map entry_name registry)
      \<and> 3 \<le> length (filter core_kind registry)
    \<longrightarrow> (\<exists>r. filter_relevant_components task_card registry = Inr r \<and> 3 \<le> length r))
   \<and> (well_typed_task task_card \<and> list_all named_component registry
      \<longrightarrow> (\<exists>r. filter_relevant_components task_card registry = Inr r))
   \<and> (list_all named_component registry \<and> distinct (map entry_name registry)
        \<and> get_lower task_card ''domain'' = Inr domain
        \<and> get_lower task_card ''algorithm'' = Inr algorithm
        \<and> filter_scored domain algorithm registry [] = Inr survivors
        \<and> length survivors < 3
      \<longrightarrow> filter_relevant_components task_card registry
            = Inr (survivors @ filter (\<lambda>c. core_kind c \<and> c \<notin> set survivors) registry))
   \<and> (filter_relevant_components task_card registry = Inr result
        \<and> distinct (filter core_kind registry)
        \<and> (\<forall>c\<in>set registry. \<forall>c'\<in>set registry.
              core_kind c \<and> core_kind c' \<and> c \<noteq> c' \<longrightarrow> \<not> py_eq c c')
        \<and> 3 \<le> length (filter core_kind registry)
      \<longrightarrow> 3 \<le> length result)
   \<and> (get_lower task_card ''domain'' = Inr domain
        \<and> get_lower task_card ''algorithm'' = Inr algorithm
        \<and> filter_scored domain algorithm registry [] = Inr survivors
        \<and> length survivors < 3
        \<longrightarrow> filter_relevant_components task_card registry
              = Inr (force_include registry survivors)
            \<and> (\<exists>added. force_include registry survivors = survivors @ added)
            \<and> (\<forall>c\<in>set registry. core_kind c
                  \<longrightarrow> py_in c (force_include registry survivors)))"
proof -
  have returns: "\<exists>r. filter_relevant_components task_card registry = Inr r"
    if wt: "well_typed_task task_card" and nm: "list_all named_component registry"
  proof -
    from wt obtain d where t: "task_card = JObj d" by (cases task_card) auto
    from wt t get_lower_typed[of d "''domain''"] obtain dom where
      d: "get_lower task_card ''domain'' = Inr dom" by auto
    from wt t get_lower_typed[of d "''algorithm''"] obtain alg where
      a: "get_lower task_card ''algorithm'' = Inr alg" by auto
    from filter_scored_typed[OF named_well_typed[OF nm], of dom alg "[]"] obtain filtered where
      "filter_scored dom alg registry [] = Inr filtered" by auto
    with d a show ?thesis by (simp add: filter_relevant_components_def)
  qed
  have unequal: "distinct (filter core_kind registry)
      \<and> (\<forall>c\<in>set registry. \<forall>c'\<in>set registry.
            core_kind c \<and> core_kind c' \<and> c \<noteq> c' \<longrightarrow> \<not> py_eq c c')"
    if nm: "list_all named_component registry" and un: "distinct (map entry_name registry)"
  proof
    from un have "distinct registry" by (simp add: distinct_map)
    then show "distinct (filter core_kind registry)" by simp
    show "\<forall>c\<in>set registry. \<forall>c'\<in>set registry.
            core_kind c \<and> core_kind c' \<and> c \<noteq> c' \<longrightarrow> \<not> py_eq c c'"
      using unique_names_unequal[OF nm un] by blast
  qed
  have c1: "\<exists>r. filter_relevant_components task_card registry = Inr r \<and> 3 \<le> length r"
    if h: "well_typed_task task_card \<and> list_all named_component registry
      \<and> distinct (map entry_name registry)
      \<and> 3 \<le> length (filter core_kind registry)"
  proof -
    from h returns obtain r where r: "filter_relevant_components task_card registry = Inr r"
      by blast
    from h unequal have u: "distinct (filter core_kind registry)"
      "\<forall>c\<in>set registry. \<forall>c'\<in>set registry.
            core_kind c \<and> core_kind c' \<and> c \<noteq> c' \<longrightarrow> \<not> py_eq c c'" by blast+
    from h have "3 \<le> length (filter core_kind registry)" by simp
    from floor_of_unequal[OF r u this] r show ?thesis by blast
  qed
  have c3: "filter_relevant_components task_card registry
            = Inr (survivors @ filter (\<lambda>c. core_kind c \<and> c \<notin> set survivors) registry)"
    if h: "list_all named_component registry \<and> distinct (map entry_name registry)
        \<and> get_lower task_card ''domain'' = Inr domain
        \<and> get_lower task_card ''algorithm'' = Inr algorithm
        \<and> filter_scored domain algorithm registry [] = Inr survivors
        \<and> length survivors < 3"
  proof -
    from h have nm: "list_all named_component registry"
      and un: "distinct (map entry_name registry)"
      and f: "filter_scored domain algorithm registry [] = Inr survivors" by simp_all
    from unequal[OF nm un] have u: "distinct (filter core_kind registry)"
      "\<forall>c\<in>set registry. \<forall>c'\<in>set registry.
            core_kind c \<and> core_kind c' \<and> c \<noteq> c' \<longrightarrow> \<not> py_eq c c'" by blast+
    have "force_include registry (survivors @ [])
            = survivors @ [] @ filter (\<lambda>c. core_kind c \<and> \<not> py_in c survivors) registry"
      by (rule force_include_exact[OF u]) simp
    moreover have "filter (\<lambda>c. core_kind c \<and> \<not> py_in c survivors) registry
            = filter (\<lambda>c. core_kind c \<and> c \<notin> set survivors) registry"
      using unique_names_py_in[OF nm un _ filter_scored_subset[OF f]]
      by (intro filter_cong) auto
    ultimately have "force_include registry survivors
            = survivors @ filter (\<lambda>c. core_kind c \<and> c \<notin> set survivors) registry" by simp
    with h show ?thesis by (simp add: filter_relevant_components_def)
  qed
  have c4: "3 \<le> length result"
    if h: "filter_relevant_components task_card registry = Inr result
        \<and> distinct (filter core_kind registry)
        \<and> (\<forall>c\<in>set registry. \<forall>c'\<in>set registry.
              core_kind c \<and> core_kind c' \<and> c \<noteq> c' \<longrightarrow> \<not> py_eq c c')
        \<and> 3 \<le> length (filter core_kind registry)"
    using h by (intro floor_of_unequal[of task_card registry result]) blast+
  have c5: "filter_relevant_components task_card registry
              = Inr (force_include registry survivors)
            \<and> (\<exists>added. force_include registry survivors = survivors @ added)
            \<and> (\<forall>c\<in>set registry. core_kind c
                  \<longrightarrow> py_in c (force_include registry survivors))"
    if h: "get_lower task_card ''domain'' = Inr domain
        \<and> get_lower task_card ''algorithm'' = Inr algorithm
        \<and> filter_scored domain algorithm registry [] = Inr survivors
        \<and> length survivors < 3"
  proof (intro conjI)
    from h show "filter_relevant_components task_card registry
               = Inr (force_include registry survivors)"
      by (simp add: filter_relevant_components_def)
    show "\<exists>added. force_include registry survivors = survivors @ added"
      by (rule force_include_append)
    show "\<forall>c\<in>set registry. core_kind c \<longrightarrow> py_in c (force_include registry survivors)"
      by (auto intro: force_include_covers)
  qed
  from c1 returns c3 c4 c5 show ?thesis by blast
qed

theorem filter_floor_witness:
  "filter_relevant_components
     (JObj [(''domain'', JStr ''spin.tfim''), (''algorithm'', JStr ''vqe'')])
     [JObj [(''name'', JStr ''sim''), (''kind'', JStr ''backend''), (''tags'', JArr [])],
      JObj [(''name'', JStr ''Spin.TFIM.Hamiltonian''), (''kind'', JStr ''hamiltonian''),
            (''tags'', JArr [JStr ''TFIM''])],
      JObj [(''name'', JStr ''io''), (''kind'', JStr ''core''), (''tags'', JArr [])],
      JObj [(''name'', JStr ''log''), (''kind'', JStr ''core''), (''tags'', JArr [])]]
   = Inr [JObj [(''name'', JStr ''Spin.TFIM.Hamiltonian''), (''kind'', JStr ''hamiltonian''),
                (''tags'', JArr [JStr ''TFIM''])],
          JObj [(''name'', JStr ''sim''), (''kind'', JStr ''backend''), (''tags'', JArr [])],
          JObj [(''name'', JStr ''io''), (''kind'', JStr ''core''), (''tags'', JArr [])],
          JObj [(''name'', JStr ''log''), (''kind'', JStr ''core''), (''tags'', JArr [])]]
   \<and> 3 \<le> length
        [JObj [(''name'', JStr ''Spin.TFIM.Hamiltonian''), (''kind'', JStr ''hamiltonian''),
               (''tags'', JArr [JStr ''TFIM''])],
         JObj [(''name'', JStr ''sim''), (''kind'', JStr ''backend''), (''tags'', JArr [])],
         JObj [(''name'', JStr ''io''), (''kind'', JStr ''core''), (''tags'', JArr [])],
         JObj [(''name'', JStr ''log''), (''kind'', JStr ''core''), (''tags'', JArr [])]]
   \<and> py_in (JObj [(''name'', JStr ''io''), (''kind'', JStr ''core''), (''tags'', JArr [])])
        (force_include
           [JObj [(''name'', JStr ''sim''), (''kind'', JStr ''backend''), (''tags'', JArr [])],
            JObj [(''name'', JStr ''Spin.TFIM.Hamiltonian''), (''kind'', JStr ''hamiltonian''),
                  (''tags'', JArr [JStr ''TFIM''])],
            JObj [(''name'', JStr ''io''), (''kind'', JStr ''core''), (''tags'', JArr [])],
            JObj [(''name'', JStr ''log''), (''kind'', JStr ''core''), (''tags'', JArr [])]]
           [JObj [(''name'', JStr ''Spin.TFIM.Hamiltonian''), (''kind'', JStr ''hamiltonian''),
                  (''tags'', JArr [JStr ''TFIM''])]])"
proof -
  let ?T = "JObj [(''domain'', JStr ''spin.tfim''), (''algorithm'', JStr ''vqe'')]"
  let ?c1 = "JObj [(''name'', JStr ''sim''), (''kind'', JStr ''backend''), (''tags'', JArr [])]"
  let ?h = "JObj [(''name'', JStr ''Spin.TFIM.Hamiltonian''), (''kind'', JStr ''hamiltonian''),
                  (''tags'', JArr [JStr ''TFIM''])]"
  let ?c2 = "JObj [(''name'', JStr ''io''), (''kind'', JStr ''core''), (''tags'', JArr [])]"
  let ?c3 = "JObj [(''name'', JStr ''log''), (''kind'', JStr ''core''), (''tags'', JArr [])]"
  let ?R = "[?c1, ?h, ?c2, ?c3]"
  note t = filter_floor[of ?T ?R "''spin.tfim''" "''vqe''" "[?h]"]
  have wt: "well_typed_task ?T" by simp
  have nm: "list_all named_component ?R" by simp
  have un: "distinct (map entry_name ?R)" by simp
  have three: "3 \<le> length (filter core_kind ?R)" by simp
  from t wt nm un three obtain r where
    r: "filter_relevant_components ?T ?R = Inr r" and len: "3 \<le> length r" by blast
  have d: "get_lower ?T ''domain'' = Inr ''spin.tfim''" by code_simp
  have a: "get_lower ?T ''algorithm'' = Inr ''vqe''" by code_simp
  have s: "filter_scored ''spin.tfim'' ''vqe'' ?R [] = Inr [?h]" by code_simp
  have l: "length [?h] < 3" by simp
  from t nm un d a s l have
    res: "filter_relevant_components ?T ?R
            = Inr ([?h] @ filter (\<lambda>c. core_kind c \<and> c \<notin> set [?h]) ?R)" by blast
  have fl: "[?h] @ filter (\<lambda>c. core_kind c \<and> c \<notin> set [?h]) ?R = [?h, ?c1, ?c2, ?c3]"
    by simp
  from t d a s l have
    cov: "\<forall>c\<in>set ?R. core_kind c \<longrightarrow> py_in c (force_include ?R [?h])" by blast
  have "core_kind ?c2" by simp
  with cov have pin: "py_in ?c2 (force_include ?R [?h])" by simp
  from res fl r len pin show ?thesis by simp
qed

text \<open>
  The hypotheses on the catalog and the task card are needed. A catalog that lists one
  backend entry three times (the loader concatenates the component files and removes no
  duplicate) has three entries of the three kinds, and the filter returns one: the forced
  inclusion skips an entry equal to one already present. On a task card whose algorithm
  is \<open>null\<close> the filter raises.
\<close>

lemma filter_outside_data_model:
  "length (filter core_kind
     [JObj [(''name'', JStr ''sim''), (''kind'', JStr ''backend''), (''tags'', JArr [])],
      JObj [(''name'', JStr ''sim''), (''kind'', JStr ''backend''), (''tags'', JArr [])],
      JObj [(''name'', JStr ''sim''), (''kind'', JStr ''backend''), (''tags'', JArr [])]]) = 3
   \<and> filter_relevant_components
       (JObj [(''domain'', JStr ''spin.tfim''), (''algorithm'', JStr ''vqe'')])
       [JObj [(''name'', JStr ''sim''), (''kind'', JStr ''backend''), (''tags'', JArr [])],
        JObj [(''name'', JStr ''sim''), (''kind'', JStr ''backend''), (''tags'', JArr [])],
        JObj [(''name'', JStr ''sim''), (''kind'', JStr ''backend''), (''tags'', JArr [])]]
     = Inr [JObj [(''name'', JStr ''sim''), (''kind'', JStr ''backend''), (''tags'', JArr [])]]
   \<and> filter_relevant_components
       (JObj [(''domain'', JStr ''spin.tfim''), (''algorithm'', JNull)])
       [JObj [(''name'', JStr ''sim''), (''kind'', JStr ''backend''), (''tags'', JArr [])]]
     = Inl PyAttributeError"
  by code_simp

section \<open>Properties of the dependency analysis\<close>

lemma classify_empty: "classify [] = None"
  by (simp add: classify_def classify_by_def)

lemma classify_component_typed:
  assumes "has_str_name c"
  shows "classify_component c =
           Inr (case entry_name c of
                  None \<Rightarrow> None
                | Some n \<Rightarrow> (case classify n of None \<Rightarrow> None | Some t \<Rightarrow> Some (n, t)))"
proof -
  from assms obtain d where c: "c = JObj d" by (cases c) auto
  show ?thesis
  proof (cases "map_of d ''name''")
    case None
    then show ?thesis by (simp add: c classify_empty)
  next
    case (Some v)
    with assms c obtain n where "v = JStr n" by (cases v) auto
    with Some show ?thesis by (simp add: c)
  qed
qed

lemma build_component_types_typed:
  assumes "list_all has_str_name cs"
  shows "\<exists>types. build_component_types cs acc = Inr types
           \<and> (\<forall>n. map_of types n =
                 (if Some n \<in> entry_name ` set cs \<and> classify n \<noteq> None then classify n
                  else map_of acc n))
           \<and> (distinct (map fst acc) \<longrightarrow> distinct (map fst types))"
  using assms
proof (induction cs arbitrary: acc)
  case Nil
  then show ?case by simp
next
  case (Cons c cs)
  then have c: "has_str_name c" and rest: "list_all has_str_name cs" by simp_all
  note cc = classify_component_typed[OF c]
  show ?case
  proof (cases "entry_name c")
    case None
    with cc have step: "build_component_types (c # cs) acc = build_component_types cs acc"
      by simp
    from Cons.IH[OF rest, of acc] None show ?thesis
      unfolding step by (auto simp: image_iff)
  next
    case (Some n)
    show ?thesis
    proof (cases "classify n")
      case None
      with cc Some have step: "build_component_types (c # cs) acc = build_component_types cs acc"
        by simp
      from Cons.IH[OF rest, of acc] obtain types where
        t: "build_component_types cs acc = Inr types"
        and l: "\<forall>m. map_of types m =
                 (if Some m \<in> entry_name ` set cs \<and> classify m \<noteq> None then classify m
                  else map_of acc m)"
        and d: "distinct (map fst acc) \<longrightarrow> distinct (map fst types)" by blast
      have "\<forall>m. map_of types m =
                 (if Some m \<in> entry_name ` set (c # cs) \<and> classify m \<noteq> None then classify m
                  else map_of acc m)"
        using l Some None by auto
      with t d show ?thesis unfolding step by blast
    next
      case (Some t)
      with cc \<open>entry_name c = Some n\<close>
      have step: "build_component_types (c # cs) acc
                    = build_component_types cs (AList.update n t acc)"
        by simp
      from Cons.IH[OF rest, of "AList.update n t acc"] obtain types where
        t: "build_component_types cs (AList.update n t acc) = Inr types"
        and l: "\<forall>m. map_of types m =
                 (if Some m \<in> entry_name ` set cs \<and> classify m \<noteq> None then classify m
                  else map_of (AList.update n t acc) m)"
        and d: "distinct (map fst (AList.update n t acc)) \<longrightarrow> distinct (map fst types)"
        by blast
      have "\<forall>m. map_of types m =
                 (if Some m \<in> entry_name ` set (c # cs) \<and> classify m \<noteq> None then classify m
                  else map_of acc m)"
        using l Some \<open>entry_name c = Some n\<close> by (auto simp: update_conv')
      moreover have "distinct (map fst acc) \<longrightarrow> distinct (map fst types)"
        using d by (simp add: distinct_update)
      ultimately show ?thesis using t unfolding step by blast
    qed
  qed
qed

lemma collect_deps_strings:
  "collect_deps A types (map JStr order) =
     Inr (map (\<lambda>n. \<lparr>dep_name = n, dep_type = the (map_of types n),
                     dep_variable = get_variable_name n (the (map_of types n))\<rparr>)
            (filter (\<lambda>n. n \<noteq> A \<and> map_of types n \<noteq> None) order))"
  by (induction order) auto

lemma build_dependencies_lookup:
  assumes "iterate order = Inr comp_names"
    and "\<forall>A\<in>set algos. collect_deps A types comp_names = Inr (deps A)"
  shows "\<exists>result. build_dependencies algos types order acc = Inr result
           \<and> (\<forall>A. map_of result A =
                 (if A \<in> set algos
                  then Some \<lparr>algo_type = ''algorithm'', requires = deps A,
                             usage_pattern = make_usage_pattern A (deps A)\<rparr>
                  else map_of acc A))"
  using assms(2)
proof (induction algos arbitrary: acc)
  case Nil
  then show ?case by simp
next
  case (Cons a algos)
  let ?acc = "AList.update a \<lparr>algo_type = ''algorithm'', requires = deps a,
                             usage_pattern = make_usage_pattern a (deps a)\<rparr> acc"
  from Cons.prems have a: "collect_deps a types comp_names = Inr (deps a)"
    and rest: "\<forall>A\<in>set algos. collect_deps A types comp_names = Inr (deps A)" by simp_all
  have step: "build_dependencies (a # algos) types order acc
                = build_dependencies algos types order ?acc"
    using assms(1) a by simp
  from Cons.IH[OF rest, of ?acc] obtain result where
    r: "build_dependencies algos types order ?acc = Inr result"
    and l: "\<forall>A. map_of result A =
                 (if A \<in> set algos
                  then Some \<lparr>algo_type = ''algorithm'', requires = deps A,
                             usage_pattern = make_usage_pattern A (deps A)\<rparr>
                  else map_of ?acc A)" by blast
  have "\<forall>A. map_of result A =
                 (if A \<in> set (a # algos)
                  then Some \<lparr>algo_type = ''algorithm'', requires = deps A,
                             usage_pattern = make_usage_pattern A (deps A)\<rparr>
                  else map_of acc A)"
    using l by (auto simp: update_conv')
  with r show ?case unfolding step by blast
qed

lemma algorithm_components_iff:
  assumes "distinct (map fst types)"
  shows "A \<in> set (map fst (filter (\<lambda>(name, t). t = ''algorithm'') types))
           \<longleftrightarrow> map_of types A = Some ''algorithm''"
proof
  assume "A \<in> set (map fst (filter (\<lambda>(name, t). t = ''algorithm'') types))"
  then have "(A, ''algorithm'') \<in> set types" by auto
  with assms show "map_of types A = Some ''algorithm''" by simp
next
  assume "map_of types A = Some ''algorithm''"
  then have "(A, ''algorithm'') \<in> set types" by (rule map_of_SomeD)
  then show "A \<in> set (map fst (filter (\<lambda>(name, t). t = ''algorithm'') types))"
    by force
qed

lemma classify_range:
  "classify n = Some t \<Longrightarrow>
     t \<in> {''hamiltonian'', ''optimizer'', ''circuit'', ''backend'', ''algorithm''}"
  by (auto simp: classify_def classify_by_def split: if_splits)

lemma type_mapping_inj:
  assumes "t1 \<in> {''hamiltonian'', ''optimizer'', ''circuit'', ''backend'', ''algorithm''}"
    and "t2 \<in> {''hamiltonian'', ''optimizer'', ''circuit'', ''backend'', ''algorithm''}"
    and "get_variable_name n1 t1 = get_variable_name n2 t2"
  shows "t1 = t2"
  using assms by (auto simp: get_variable_name_def type_mapping_def)

lemma distinct_variables:
  assumes "\<forall>e\<in>set deps. dep_type e \<in> {''hamiltonian'', ''optimizer'', ''circuit'', ''backend'',
                                        ''algorithm''}
                          \<and> dep_variable e = get_variable_name (dep_name e) (dep_type e)"
    and "distinct (map dep_type deps)"
  shows "distinct (map dep_variable deps)"
  using assms
proof (induction deps)
  case Nil
  then show ?case by simp
next
  case (Cons e deps)
  then have IH: "distinct (map dep_variable deps)" by simp
  have "dep_variable e \<notin> set (map dep_variable deps)"
  proof
    assume "dep_variable e \<in> set (map dep_variable deps)"
    then obtain e' where e': "e' \<in> set deps" "dep_variable e' = dep_variable e" by auto
    with Cons.prems(1) have
      "get_variable_name (dep_name e) (dep_type e) = get_variable_name (dep_name e') (dep_type e')"
      by simp
    moreover from Cons.prems(1) e' have
      "dep_type e \<in> {''hamiltonian'', ''optimizer'', ''circuit'', ''backend'', ''algorithm''}"
      "dep_type e' \<in> {''hamiltonian'', ''optimizer'', ''circuit'', ''backend'', ''algorithm''}"
      by simp_all
    ultimately have "dep_type e = dep_type e'" by (rule type_mapping_inj[rotated 2])
    with e'(1) Cons.prems(2) show False by auto
  qed
  with IH show ?case by simp
qed

text \<open>
  Claim C1, as amended. On component records with string names and an execution order of
  names, the analysis returns; a name is classified exactly when a component bears it and
  a role keyword occurs in it. For a component \<open>A\<close> classified as algorithm that is the only
  algorithm among the names of the execution order, the binding of \<open>A\<close> lists exactly the
  classified names of the execution order other than \<open>A\<close>, wherever they stand, in that
  order and as often as they occur, each with its role and the variable name the role table
  gives (\<open>H\<close>, \<open>optimizer\<close>, \<open>ansatz\<close> or \<open>estimator\<close>). In particular, when \<open>A\<close> stands at the
  end of the order only, the binding has as many entries as there are classified names
  before it, and their variable names are distinct when their roles are.
\<close>

theorem binding_contents:
  assumes "list_all has_str_name components"
    and "map_of plan ''execution_order'' = Some (JArr (map JStr order))"
  shows "\<exists>result. analyze_component_dependencies components (JObj plan) = Inr result
     \<and> (\<forall>n. map_of (component_types result) n =
              (if Some n \<in> entry_name ` set components then classify n else None))
     \<and> (\<forall>A. map_of (component_types result) A = Some ''algorithm''
             \<and> (\<forall>n\<in>set order. n \<noteq> A
                    \<longrightarrow> map_of (component_types result) n \<noteq> Some ''algorithm'')
          \<longrightarrow> (\<exists>deps. binding_of result A = Some deps
                \<and> map dep_name deps
                    = filter (\<lambda>n. n \<noteq> A \<and> map_of (component_types result) n \<noteq> None) order
                \<and> (\<forall>e\<in>set deps.
                       map_of (component_types result) (dep_name e) = Some (dep_type e)
                     \<and> map_of type_mapping (dep_type e) = Some (dep_variable e)
                     \<and> dep_variable e \<in> {''H'', ''optimizer'', ''ansatz'', ''estimator''})
                \<and> (\<forall>pre. order = pre @ [A] \<and> A \<notin> set pre
                      \<longrightarrow> length deps
                            = length (filter (\<lambda>n. map_of (component_types result) n \<noteq> None) pre)
                          \<and> (distinct (map dep_type deps)
                               \<longrightarrow> distinct (map dep_variable deps)))))"
proof -
  from build_component_types_typed[OF assms(1), of "[]"] obtain types where
    types: "build_component_types components [] = Inr types"
    and look: "\<forall>n. map_of types n =
                 (if Some n \<in> entry_name ` set components \<and> classify n \<noteq> None then classify n
                  else None)"
    and dist: "distinct (map fst types)" by auto
  have look': "map_of types n = (if Some n \<in> entry_name ` set components then classify n else None)"
    for n using look by auto
  have range: "t \<in> {''hamiltonian'', ''optimizer'', ''circuit'', ''backend'', ''algorithm''}"
    if "map_of types n = Some t" for n t
    using that look' classify_range by (auto split: if_splits)
  let ?algos = "map fst (filter (\<lambda>(name, t). t = ''algorithm'') types)"
  let ?P = "\<lambda>A n. n \<noteq> A \<and> map_of types n \<noteq> None"
  let ?mk = "\<lambda>n. \<lparr>dep_name = n, dep_type = the (map_of types n),
                  dep_variable = get_variable_name n (the (map_of types n))\<rparr>"
  let ?deps = "\<lambda>A. map ?mk (filter (?P A) order)"
  have it: "iterate (JArr (map JStr order)) = Inr (map JStr order)" by simp
  have "\<forall>A\<in>set ?algos. collect_deps A types (map JStr order) = Inr (?deps A)"
    by (simp only: collect_deps_strings) simp
  from build_dependencies_lookup[OF it this, of "[]"] obtain dependencies where
    deps: "build_dependencies ?algos types (JArr (map JStr order)) [] = Inr dependencies"
    and dl: "\<forall>A. map_of dependencies A =
                 (if A \<in> set ?algos
                  then Some \<lparr>algo_type = ''algorithm'', requires = ?deps A,
                             usage_pattern = make_usage_pattern A (?deps A)\<rparr>
                  else None)" by auto
  let ?result = "\<lparr>component_types = types, algorithm_dependencies = dependencies,
                  execution_order = JArr (map JStr order)\<rparr>"
  have res: "analyze_component_dependencies components (JObj plan) = Inr ?result"
    using assms(2) types deps by (simp add: Let_def)
  have main: "\<exists>ds. binding_of ?result A = Some ds
                \<and> map dep_name ds = filter (\<lambda>n. n \<noteq> A \<and> map_of types n \<noteq> None) order
                \<and> (\<forall>e\<in>set ds.
                       map_of types (dep_name e) = Some (dep_type e)
                     \<and> map_of type_mapping (dep_type e) = Some (dep_variable e)
                     \<and> dep_variable e \<in> {''H'', ''optimizer'', ''ansatz'', ''estimator''})
                \<and> (\<forall>pre. order = pre @ [A] \<and> A \<notin> set pre
                      \<longrightarrow> length ds = length (filter (\<lambda>n. map_of types n \<noteq> None) pre)
                          \<and> (distinct (map dep_type ds) \<longrightarrow> distinct (map dep_variable ds)))"
    if A: "map_of types A = Some ''algorithm''"
      and only: "\<forall>n\<in>set order. n \<noteq> A \<longrightarrow> map_of types n \<noteq> Some ''algorithm''"
    for A
  proof -
    from A dist have "A \<in> set ?algos" by (simp only: algorithm_components_iff)
    with dl have b: "binding_of ?result A = Some (?deps A)" by (simp add: binding_of_def)
    have names: "map dep_name (?deps A) = filter (?P A) order" by (simp add: comp_def)
    have entries: "map_of types (dep_name e) = Some (dep_type e)
                 \<and> dep_variable e = get_variable_name (dep_name e) (dep_type e)
                 \<and> dep_type e \<in> {''hamiltonian'', ''optimizer'', ''circuit'', ''backend''}"
      if "e \<in> set (?deps A)" for e
    proof -
      from that obtain n where n: "n \<in> set order" "n \<noteq> A" "map_of types n \<noteq> None"
        and e: "e = ?mk n" by auto
      from n(3) obtain t where t: "map_of types n = Some t" by auto
      with only n have "t \<noteq> ''algorithm''" by auto
      with range[OF t] have "t \<in> {''hamiltonian'', ''optimizer'', ''circuit'', ''backend''}"
        by auto
      with t e show ?thesis by simp
    qed
    have per: "map_of types (dep_name e) = Some (dep_type e)
             \<and> map_of type_mapping (dep_type e) = Some (dep_variable e)
             \<and> dep_variable e \<in> {''H'', ''optimizer'', ''ansatz'', ''estimator''}"
      if "e \<in> set (?deps A)" for e
      using entries[OF that] by (auto simp: get_variable_name_def type_mapping_def)
    have dv: "distinct (map dep_variable (?deps A))" if "distinct (map dep_type (?deps A))"
    proof (rule distinct_variables[OF _ that], intro ballI)
      fix e assume "e \<in> set (?deps A)"
      from entries[OF this]
      show "dep_type e \<in> {''hamiltonian'', ''optimizer'', ''circuit'', ''backend'', ''algorithm''}
            \<and> dep_variable e = get_variable_name (dep_name e) (dep_type e)" by auto
    qed
    have len: "length (?deps A) = length (filter (\<lambda>n. map_of types n \<noteq> None) pre)"
      if "order = pre @ [A] \<and> A \<notin> set pre" for pre
    proof -
      from that have "filter (?P A) order = filter (\<lambda>n. map_of types n \<noteq> None) pre"
        by (auto intro: filter_cong)
      then show ?thesis by simp
    qed
    from b names per dv len show ?thesis by blast
  qed
  show ?thesis
  proof (intro exI[of _ ?result] conjI allI impI)
    show "analyze_component_dependencies components (JObj plan) = Inr ?result" by (rule res)
  next
    fix n
    show "map_of (component_types ?result) n =
            (if Some n \<in> entry_name ` set components then classify n else None)"
      using look'[of n] by simp
  next
    fix A
    assume "map_of (component_types ?result) A = Some ''algorithm''
             \<and> (\<forall>n\<in>set order. n \<noteq> A
                    \<longrightarrow> map_of (component_types ?result) n \<noteq> Some ''algorithm'')"
    then have "map_of types A = Some ''algorithm''"
      and "\<forall>n\<in>set order. n \<noteq> A \<longrightarrow> map_of types n \<noteq> Some ''algorithm''" by simp_all
    from main[OF this]
    show "\<exists>deps. binding_of ?result A = Some deps
                \<and> map dep_name deps
                    = filter (\<lambda>n. n \<noteq> A \<and> map_of (component_types ?result) n \<noteq> None) order
                \<and> (\<forall>e\<in>set deps.
                       map_of (component_types ?result) (dep_name e) = Some (dep_type e)
                     \<and> map_of type_mapping (dep_type e) = Some (dep_variable e)
                     \<and> dep_variable e \<in> {''H'', ''optimizer'', ''ansatz'', ''estimator''})
                \<and> (\<forall>pre. order = pre @ [A] \<and> A \<notin> set pre
                      \<longrightarrow> length deps
                            = length (filter (\<lambda>n. map_of (component_types ?result) n \<noteq> None) pre)
                          \<and> (distinct (map dep_type deps)
                               \<longrightarrow> distinct (map dep_variable deps)))"
      by simp
  qed
qed

text \<open>
  Claim C1 as stated fails twice: a classified component that follows the algorithm in the
  execution order is bound as well, and two components of one role receive the same
  variable name.
\<close>

theorem binding_contents_counterexample:
  "analyze_component_dependencies
     [JObj [(''name'', JStr ''A.Hamiltonian'')], JObj [(''name'', JStr ''VQE.Algorithm'')],
      JObj [(''name'', JStr ''B.Optimizer'')]]
     (JObj [(''execution_order'',
             JArr [JStr ''A.Hamiltonian'', JStr ''VQE.Algorithm'', JStr ''B.Optimizer''])])
   = Inr \<lparr>component_types =
            [(''A.Hamiltonian'', ''hamiltonian''), (''VQE.Algorithm'', ''algorithm''),
             (''B.Optimizer'', ''optimizer'')],
          algorithm_dependencies =
            [(''VQE.Algorithm'',
              \<lparr>algo_type = ''algorithm'',
               requires =
                 [\<lparr>dep_name = ''A.Hamiltonian'', dep_type = ''hamiltonian'',
                   dep_variable = ''H''\<rparr>,
                  \<lparr>dep_name = ''B.Optimizer'', dep_type = ''optimizer'',
                   dep_variable = ''optimizer''\<rparr>],
               usage_pattern = ''algorithm = Algorithm(hamiltonian=H, optimizer=optimizer)''\<rparr>)],
          execution_order =
            JArr [JStr ''A.Hamiltonian'', JStr ''VQE.Algorithm'', JStr ''B.Optimizer'']\<rparr>
   \<and> analyze_component_dependencies
     [JObj [(''name'', JStr ''A.Hamiltonian'')], JObj [(''name'', JStr ''B.Hamiltonian'')],
      JObj [(''name'', JStr ''VQE.Algorithm'')]]
     (JObj [(''execution_order'',
             JArr [JStr ''A.Hamiltonian'', JStr ''B.Hamiltonian'', JStr ''VQE.Algorithm''])])
   = Inr \<lparr>component_types =
            [(''A.Hamiltonian'', ''hamiltonian''), (''B.Hamiltonian'', ''hamiltonian''),
             (''VQE.Algorithm'', ''algorithm'')],
          algorithm_dependencies =
            [(''VQE.Algorithm'',
              \<lparr>algo_type = ''algorithm'',
               requires =
                 [\<lparr>dep_name = ''A.Hamiltonian'', dep_type = ''hamiltonian'',
                   dep_variable = ''H''\<rparr>,
                  \<lparr>dep_name = ''B.Hamiltonian'', dep_type = ''hamiltonian'',
                   dep_variable = ''H''\<rparr>],
               usage_pattern = ''algorithm = Algorithm(hamiltonian=H, hamiltonian=H)''\<rparr>)],
          execution_order =
            JArr [JStr ''A.Hamiltonian'', JStr ''B.Hamiltonian'', JStr ''VQE.Algorithm'']\<rparr>
   \<and> \<not> distinct [''H'', ''H'']"
  by code_simp

theorem binding_contents_witness:
  "analyze_component_dependencies
     [JObj [(''name'', JStr ''Spin.TFIM.Hamiltonian'')],
      JObj [(''name'', JStr ''Opt.COBYLA.Optimizer'')],
      JObj [(''name'', JStr ''Circuit.TFIM.Ansatz'')],
      JObj [(''name'', JStr ''Backend.Estimator'')],
      JObj [(''name'', JStr ''Algorithm.VQE'')]]
     (JObj [(''execution_order'',
             JArr (map JStr [''Spin.TFIM.Hamiltonian'', ''Opt.COBYLA.Optimizer'',
                             ''Circuit.TFIM.Ansatz'', ''Backend.Estimator'',
                             ''Algorithm.VQE'']))])
   = Inr \<lparr>component_types =
            [(''Spin.TFIM.Hamiltonian'', ''hamiltonian''),
             (''Opt.COBYLA.Optimizer'', ''optimizer''),
             (''Circuit.TFIM.Ansatz'', ''circuit''),
             (''Backend.Estimator'', ''backend''),
             (''Algorithm.VQE'', ''algorithm'')],
          algorithm_dependencies =
            [(''Algorithm.VQE'',
              \<lparr>algo_type = ''algorithm'',
               requires =
                 [\<lparr>dep_name = ''Spin.TFIM.Hamiltonian'', dep_type = ''hamiltonian'',
                   dep_variable = ''H''\<rparr>,
                  \<lparr>dep_name = ''Opt.COBYLA.Optimizer'', dep_type = ''optimizer'',
                   dep_variable = ''optimizer''\<rparr>,
                  \<lparr>dep_name = ''Circuit.TFIM.Ansatz'', dep_type = ''circuit'',
                   dep_variable = ''ansatz''\<rparr>,
                  \<lparr>dep_name = ''Backend.Estimator'', dep_type = ''backend'',
                   dep_variable = ''estimator''\<rparr>],
               usage_pattern =
                 ''algorithm = VQE(hamiltonian=H, optimizer=optimizer, circuit=ansatz, backend=estimator)''\<rparr>)],
          execution_order =
            JArr (map JStr [''Spin.TFIM.Hamiltonian'', ''Opt.COBYLA.Optimizer'',
                            ''Circuit.TFIM.Ansatz'', ''Backend.Estimator'',
                            ''Algorithm.VQE''])\<rparr>
   \<and> distinct [''H'', ''optimizer'', ''ansatz'', ''estimator'']"
proof -
  let ?comps = "[JObj [(''name'', JStr ''Spin.TFIM.Hamiltonian'')],
      JObj [(''name'', JStr ''Opt.COBYLA.Optimizer'')],
      JObj [(''name'', JStr ''Circuit.TFIM.Ansatz'')],
      JObj [(''name'', JStr ''Backend.Estimator'')],
      JObj [(''name'', JStr ''Algorithm.VQE'')]]"
  let ?pre = "[''Spin.TFIM.Hamiltonian'', ''Opt.COBYLA.Optimizer'',
               ''Circuit.TFIM.Ansatz'', ''Backend.Estimator'']"
  let ?order = "?pre @ [''Algorithm.VQE'']"
  let ?plan = "[(''execution_order'', JArr (map JStr ?order))]"
  let ?types = "[(''Spin.TFIM.Hamiltonian'', ''hamiltonian''),
             (''Opt.COBYLA.Optimizer'', ''optimizer''),
             (''Circuit.TFIM.Ansatz'', ''circuit''),
             (''Backend.Estimator'', ''backend''),
             (''Algorithm.VQE'', ''algorithm'')]"
  have h1: "list_all has_str_name ?comps" by simp
  have h2: "map_of ?plan ''execution_order'' = Some (JArr (map JStr ?order))" by simp
  from binding_contents[OF h1 h2] obtain result where
    res: "analyze_component_dependencies ?comps (JObj ?plan) = Inr result"
    and bind: "map_of (component_types result) ''Algorithm.VQE'' = Some ''algorithm''
             \<and> (\<forall>n\<in>set ?order. n \<noteq> ''Algorithm.VQE''
                    \<longrightarrow> map_of (component_types result) n \<noteq> Some ''algorithm'')
          \<longrightarrow> (\<exists>deps. binding_of result ''Algorithm.VQE'' = Some deps
                \<and> map dep_name deps
                    = filter (\<lambda>n. n \<noteq> ''Algorithm.VQE''
                                 \<and> map_of (component_types result) n \<noteq> None) ?order
                \<and> (\<forall>e\<in>set deps.
                       map_of (component_types result) (dep_name e) = Some (dep_type e)
                     \<and> map_of type_mapping (dep_type e) = Some (dep_variable e)
                     \<and> dep_variable e \<in> {''H'', ''optimizer'', ''ansatz'', ''estimator''})
                \<and> (\<forall>pre. ?order = pre @ [''Algorithm.VQE''] \<and> ''Algorithm.VQE'' \<notin> set pre
                      \<longrightarrow> length deps
                            = length (filter (\<lambda>n. map_of (component_types result) n \<noteq> None) pre)
                          \<and> (distinct (map dep_type deps)
                               \<longrightarrow> distinct (map dep_variable deps))))"
    by blast
  have types: "build_component_types ?comps [] = Inr ?types" by code_simp
  with res h2 have ct: "component_types result = ?types"
    by (auto simp: Let_def split: sum.splits)
  from bind obtain deps where
    b: "binding_of result ''Algorithm.VQE'' = Some deps"
    and names: "map dep_name deps = ?pre"
    and vars: "\<forall>e\<in>set deps. map_of type_mapping (dep_type e) = Some (dep_variable e)"
    and len: "length deps = 4"
    unfolding ct by fastforce
  have ev: "analyze_component_dependencies ?comps (JObj ?plan)
     = Inr \<lparr>component_types = ?types,
          algorithm_dependencies =
            [(''Algorithm.VQE'',
              \<lparr>algo_type = ''algorithm'',
               requires =
                 [\<lparr>dep_name = ''Spin.TFIM.Hamiltonian'', dep_type = ''hamiltonian'',
                   dep_variable = ''H''\<rparr>,
                  \<lparr>dep_name = ''Opt.COBYLA.Optimizer'', dep_type = ''optimizer'',
                   dep_variable = ''optimizer''\<rparr>,
                  \<lparr>dep_name = ''Circuit.TFIM.Ansatz'', dep_type = ''circuit'',
                   dep_variable = ''ansatz''\<rparr>,
                  \<lparr>dep_name = ''Backend.Estimator'', dep_type = ''backend'',
                   dep_variable = ''estimator''\<rparr>],
               usage_pattern =
                 ''algorithm = VQE(hamiltonian=H, optimizer=optimizer, circuit=ansatz, backend=estimator)''\<rparr>)],
          execution_order = JArr (map JStr ?order)\<rparr>"
    by code_simp
  from ev len show ?thesis by simp
qed

section \<open>Properties of the learning store\<close>

lemma keep_limit_drop:
  "length xs \<le> 50 \<Longrightarrow> keep_limit (xs @ [x]) = drop (length (xs @ [x]) - 50) (xs @ [x])"
  by (cases xs) (auto simp: keep_limit_def drop_Cons' )

lemma keep_limit_length: "length xs \<le> 50 \<Longrightarrow> length (keep_limit (xs @ [x])) \<le> 50"
  by (auto simp: keep_limit_def)

lemma drop_snoc_window:
  assumes "xs = drop (length ys - 50) ys"
  shows "drop (length (xs @ [x]) - 50) (xs @ [x]) = drop (length (ys @ [x]) - 50) (ys @ [x])"
proof (cases "length ys \<le> 50")
  case True
  with assms show ?thesis by simp
next
  case False
  then have "length xs = 50" using assms by simp
  then have "drop (length (xs @ [x]) - 50) (xs @ [x]) = drop 1 xs @ [x]" by simp
  also have "drop 1 xs = drop (Suc (length ys - 50)) ys" using assms by simp
  also have "\<dots> @ [x] = drop (length (ys @ [x]) - 50) (ys @ [x])"
  proof -
    from False have "Suc (length ys - 50) = length ys - 49" by arith
    with False show ?thesis by simp
  qed
  finally show ?thesis .
qed

lemma apply_calls_processing:
  assumes "apply_calls mem ops = Inr mem'"
    and "map call_records ops = map Some rs"
    and "param_completions mem = drop (length cs0 - 50) cs0"
    and "param_normalizations mem = drop (length ns0 - 50) ns0"
  shows "param_completions mem' = drop (length (cs0 @ map fst rs) - 50) (cs0 @ map fst rs)
       \<and> param_normalizations mem' = drop (length (ns0 @ map snd rs) - 50) (ns0 @ map snd rs)"
  using assms
proof (induction ops arbitrary: mem rs cs0 ns0)
  case Nil
  then show ?case by simp
next
  case (Cons c ops)
  from Cons.prems(2) obtain r rs' where rs: "rs = r # rs'" and r: "call_records c = Some r"
    and rest: "map call_records ops = map Some rs'" by (cases rs) auto
  obtain cr nr where crnr: "r = (cr, nr)" by (cases r)
  from r obtain q comps orig res n1 n2 where c: "c = RecordParamProcessing q comps orig res n1 n2"
    and pr: "processing_records q comps orig res n1 n2 = Inr (cr, nr)"
    by (cases c) (auto simp: crnr split: sum.splits)
  let ?mem = "mem\<lparr>param_completions := keep_limit (param_completions mem @ [cr]),
                   param_normalizations := keep_limit (param_normalizations mem @ [nr])\<rparr>"
  have step: "apply_call mem c = Inr ?mem" by (simp add: c record_param_processing_def pr)
  with Cons.prems(1) have run: "apply_calls ?mem ops = Inr mem'" by simp
  have lc: "length (param_completions mem) \<le> 50" using Cons.prems(3) by simp
  have ln: "length (param_normalizations mem) \<le> 50" using Cons.prems(4) by simp
  have pc: "param_completions ?mem = drop (length (cs0 @ [cr]) - 50) (cs0 @ [cr])"
    using keep_limit_drop[OF lc, of cr] drop_snoc_window[OF Cons.prems(3), of cr] by simp
  have pn: "param_normalizations ?mem = drop (length (ns0 @ [nr]) - 50) (ns0 @ [nr])"
    using keep_limit_drop[OF ln, of nr] drop_snoc_window[OF Cons.prems(4), of nr] by simp
  from Cons.IH[OF run rest pc pn] show ?case by (simp add: rs crnr)
qed

lemma component_kinds_dicts:
  "list_all is_dict comps \<Longrightarrow> \<exists>kinds. component_kinds comps = Inr kinds"
proof (induction comps)
  case Nil
  then show ?case by simp
next
  case (Cons c comps)
  then obtain d where "c = JObj d" by (cases c) auto
  with Cons show ?case by auto
qed

lemma processing_records_typed:
  assumes "list_all is_dict comps" and "is_dict res"
  shows "\<exists>rs. processing_records q comps orig res n1 n2 = Inr rs"
proof -
  from component_kinds_dicts[OF assms(1)] obtain kinds where "component_kinds comps = Inr kinds"
    by blast
  moreover from assms(2) obtain d where "res = JObj d" by (cases res) auto
  ultimately show ?thesis by (simp add: processing_records_def)
qed

lemma apply_calls_records:
  "map call_records ops = map Some rs \<Longrightarrow> \<exists>mem'. apply_calls mem ops = Inr mem'"
proof (induction ops arbitrary: mem rs)
  case Nil
  then show ?case by simp
next
  case (Cons c ops)
  from Cons.prems obtain r rs' where r: "call_records c = Some r"
    and rest: "map call_records ops = map Some rs'" by (cases rs) auto
  obtain cr nr where crnr: "r = (cr, nr)" by (cases r)
  from r obtain q comps orig res n1 n2 where c: "c = RecordParamProcessing q comps orig res n1 n2"
    and pr: "processing_records q comps orig res n1 n2 = Inr (cr, nr)"
    by (cases c) (auto simp: crnr split: sum.splits)
  from Cons.IH[OF rest] show ?case by (simp add: c record_param_processing_def pr)
qed

text \<open>
  Claim C6, as amended. For the categories \<open>param_completions\<close> and
  \<open>param_normalizations\<close> and every sequence of \<open>record_param_processing\<close> calls on a new
  store: each category holds the records of the last 50 calls, in insertion order; it
  never holds more than 50; after 51 calls the record of the first call is gone and
  exactly 50 remain. One call appends one record to each of the two categories and then
  removes the oldest record of a category that holds more than 50, so a category within the
  capacity stays within it. The call returns whenever the components and the result are
  dictionaries.
\<close>

theorem record_param_processing_fifo:
  "(map call_records ops = map Some rs \<longrightarrow>
      (\<exists>mem. apply_calls create_agent_memory ops = Inr mem
         \<and> param_completions mem = drop (length rs - 50) (map fst rs)
         \<and> param_normalizations mem = drop (length rs - 50) (map snd rs)
         \<and> length (param_completions mem) \<le> 50
         \<and> length (param_normalizations mem) \<le> 50
         \<and> (length rs = 51 \<longrightarrow>
               param_completions mem = tl (map fst rs)
             \<and> param_normalizations mem = tl (map snd rs)
             \<and> length (param_completions mem) = 50
             \<and> length (param_normalizations mem) = 50)))
   \<and> (record_param_processing mem0 query components original_params processed_result now1 now2
         = Inr mem1
        \<longrightarrow> (\<exists>c n. param_completions mem1 = keep_limit (param_completions mem0 @ [c])
                  \<and> param_normalizations mem1 = keep_limit (param_normalizations mem0 @ [n]))
            \<and> (length (param_completions mem0) \<le> 50 \<longrightarrow> length (param_completions mem1) \<le> 50)
            \<and> (length (param_normalizations mem0) \<le> 50
                  \<longrightarrow> length (param_normalizations mem1) \<le> 50))
   \<and> (list_all is_dict components \<and> is_dict processed_result
        \<longrightarrow> (\<exists>m. record_param_processing mem0 query components original_params
                     processed_result now1 now2 = Inr m))"
proof (intro conjI impI)
  assume recs: "map call_records ops = map Some rs"
  from apply_calls_records[OF recs] obtain mem where
    run: "apply_calls create_agent_memory ops = Inr mem" by blast
  have "param_completions create_agent_memory = drop (length ([]::json list) - 50) []"
    and "param_normalizations create_agent_memory = drop (length ([]::json list) - 50) []"
    by (simp_all add: create_agent_memory_def)
  from apply_calls_processing[OF run recs this]
  have pc: "param_completions mem = drop (length rs - 50) (map fst rs)"
    and pn: "param_normalizations mem = drop (length rs - 50) (map snd rs)" by simp_all
  have t51: "drop (length rs - 50) xs = tl xs" if "length rs = 51" for xs :: "json list"
    using that by (simp add: drop_Suc)
  show "\<exists>mem. apply_calls create_agent_memory ops = Inr mem
         \<and> param_completions mem = drop (length rs - 50) (map fst rs)
         \<and> param_normalizations mem = drop (length rs - 50) (map snd rs)
         \<and> length (param_completions mem) \<le> 50
         \<and> length (param_normalizations mem) \<le> 50
         \<and> (length rs = 51 \<longrightarrow>
               param_completions mem = tl (map fst rs)
             \<and> param_normalizations mem = tl (map snd rs)
             \<and> length (param_completions mem) = 50
             \<and> length (param_normalizations mem) = 50)"
    using run pc pn t51 by (intro exI[of _ mem]) auto
next
  assume r: "record_param_processing mem0 query components original_params processed_result
               now1 now2 = Inr mem1"
  then obtain c n where mem1: "mem1 = mem0\<lparr>param_completions := keep_limit (param_completions mem0 @ [c]),
                   param_normalizations := keep_limit (param_normalizations mem0 @ [n])\<rparr>"
    by (auto simp: record_param_processing_def split: sum.splits)
  then show "\<exists>c n. param_completions mem1 = keep_limit (param_completions mem0 @ [c])
                  \<and> param_normalizations mem1 = keep_limit (param_normalizations mem0 @ [n])"
    by auto
  show "length (param_completions mem1) \<le> 50" if "length (param_completions mem0) \<le> 50"
    using that by (simp add: mem1 keep_limit_length)
  show "length (param_normalizations mem1) \<le> 50" if "length (param_normalizations mem0) \<le> 50"
    using that by (simp add: mem1 keep_limit_length)
next
  assume "list_all is_dict components \<and> is_dict processed_result"
  then have "list_all is_dict components" and "is_dict processed_result" by simp_all
  then have "\<exists>rs. processing_records query components original_params processed_result now1 now2
               = Inr rs"
    by (rule processing_records_typed)
  then show "\<exists>m. record_param_processing mem0 query components original_params
                     processed_result now1 now2 = Inr m"
    by (auto simp: record_param_processing_def)
qed

text \<open>
  Claim C6 as stated fails for the category \<open>successful_discoveries\<close>: after 51 calls of
  \<open>record_success_case\<close> it holds 51 records, the first one included.
\<close>

theorem record_success_case_unbounded_counterexample:
  "apply_calls create_agent_memory
     (replicate 51 (RecordSuccessCase ''DiscoveryAgent'' (JObj [(''domain'', JStr ''spin'')])
                      (JArr []) ''2025-01-01T00:00:00''))
   = Inr (create_agent_memory
            \<lparr>successful_discoveries :=
               replicate 51 (JObj [(''agent_type'', JStr ''DiscoveryAgent''),
                                   (''timestamp'', JStr ''2025-01-01T00:00:00''),
                                   (''input'', JObj [(''domain'', JStr ''spin'')]),
                                   (''output'', JArr [])])\<rparr>)
   \<and> length (replicate 51 (JObj [(''agent_type'', JStr ''DiscoveryAgent''),
                                   (''timestamp'', JStr ''2025-01-01T00:00:00''),
                                   (''input'', JObj [(''domain'', JStr ''spin'')]),
                                   (''output'', JArr [])])) = 51"
  by code_simp

theorem record_param_processing_fifo_witness:
  "\<exists>mem m1.
     apply_calls create_agent_memory
       (map (\<lambda>i. RecordParamProcessing ''spin chain'' [JObj [(''kind'', JStr ''hamiltonian'')]]
                    (JObj [(''n'', JInt (int i))])
                    (JObj [(''normalized_params'', JObj [(''n'', JInt (int i))])])
                    ''t1'' ''t2'') [0..<51]) = Inr mem
     \<and> length (param_completions mem) = 50
     \<and> length (param_normalizations mem) = 50
     \<and> param_completions mem
         = map (\<lambda>i. JObj [(''query'', JStr ''spin chain''), (''query_type'', JStr ''SPIN_MODEL''),
                            (''component_types'', JArr [JStr ''hamiltonian'']),
                            (''original_params'', JObj [(''n'', JInt (int i))]),
                            (''completed_params'', JObj [(''n'', JInt (int i))]),
                            (''timestamp'', JStr ''t1'')]) [1..<51]
     \<and> record_param_processing create_agent_memory ''spin chain''
           [JObj [(''kind'', JStr ''hamiltonian'')]] (JObj [(''n'', JInt 0)])
           (JObj [(''normalized_params'', JObj [(''n'', JInt 0)])]) ''t1'' ''t2'' = Inr m1
     \<and> length (param_completions m1) \<le> 50"
proof -
  let ?op = "\<lambda>i. RecordParamProcessing ''spin chain'' [JObj [(''kind'', JStr ''hamiltonian'')]]
                    (JObj [(''n'', JInt (int i))])
                    (JObj [(''normalized_params'', JObj [(''n'', JInt (int i))])])
                    ''t1'' ''t2''"
  let ?C = "\<lambda>i. JObj [(''query'', JStr ''spin chain''), (''query_type'', JStr ''SPIN_MODEL''),
                            (''component_types'', JArr [JStr ''hamiltonian'']),
                            (''original_params'', JObj [(''n'', JInt (int i))]),
                            (''completed_params'', JObj [(''n'', JInt (int i))]),
                            (''timestamp'', JStr ''t1'')]"
  let ?N = "\<lambda>i. JObj [(''task_info'', JObj [(''params'', JObj [(''n'', JInt (int i))]),
                                              (''query'', JStr ''spin chain'')]),
                   (''component_types'', JArr [JStr ''hamiltonian'']),
                   (''param_map'', JObj [(''normalized_params'', JObj [(''n'', JInt (int i))])]),
                   (''timestamp'', JStr ''t2'')]"
  let ?rs = "map (\<lambda>i. (?C i, ?N i)) [0..<51]"
  have qt: "extract_query_type ''spin chain'' = ''SPIN_MODEL''" by code_simp
  have one: "call_records (?op i) = Some (?C i, ?N i)" for i
    by (simp add: processing_records_def qt)
  have recs: "map call_records (map ?op [0..<51]) = map Some ?rs"
    by (simp only: map_map o_def one)
  note t = record_param_processing_fifo[of "map ?op [0..<51]" ?rs create_agent_memory
             "''spin chain''" "[JObj [(''kind'', JStr ''hamiltonian'')]]" "JObj [(''n'', JInt 0)]"
             "JObj [(''normalized_params'', JObj [(''n'', JInt 0)])]" "''t1''" "''t2''"]
  have len: "length ?rs = 51" by simp
  from t recs len obtain mem where
    run: "apply_calls create_agent_memory (map ?op [0..<51]) = Inr mem"
    and pc: "param_completions mem = tl (map fst ?rs)"
    and l1: "length (param_completions mem) = 50"
    and l2: "length (param_normalizations mem) = 50"
    by blast
  have "map fst ?rs = map ?C [0..<51]" by (simp add: comp_def)
  then have "tl (map fst ?rs) = map ?C (tl [0..<51])" by (simp only: map_tl)
  also have "tl [0..<51] = [1..<51]" by (simp add: tl_upt)
  finally have pc': "param_completions mem = map ?C [1..<51]" using pc by simp
  have "list_all is_dict [JObj [(''kind'', JStr ''hamiltonian'')]]
          \<and> is_dict (JObj [(''normalized_params'', JObj [(''n'', JInt 0)])])" by simp
  with t obtain m1 where
    m1: "record_param_processing create_agent_memory ''spin chain''
           [JObj [(''kind'', JStr ''hamiltonian'')]] (JObj [(''n'', JInt 0)])
           (JObj [(''normalized_params'', JObj [(''n'', JInt 0)])]) ''t1'' ''t2'' = Inr m1"
    by blast
  have "length (param_completions create_agent_memory) \<le> 50"
    by (simp add: create_agent_memory_def)
  with m1 record_param_processing_fifo[of "[]" "[]" create_agent_memory
             "''spin chain''" "[JObj [(''kind'', JStr ''hamiltonian'')]]" "JObj [(''n'', JInt 0)]"
             "JObj [(''normalized_params'', JObj [(''n'', JInt 0)])]" "''t1''" "''t2''" m1]
  have "length (param_completions m1) \<le> 50" by blast
  with run l1 l2 pc' m1 show ?thesis by blast
qed

section \<open>Properties of the stages\<close>

text \<open>
  The synchronous \<open>process\<close> validates after \<open>_call_with_retry\<close> has returned: the
  validation makes no call, and its failure is raised at once.
\<close>

lemma stage_process_state:
  "snd (stage_process loads model max_retries agent check st)
     = snd (call_with_retry loads model max_retries agent st)"
  by (auto simp: stage_process_def split: prod.splits sum.splits)

lemma stage_process_validation_failure:
  assumes "call_with_retry loads model max_retries agent st = (Inr d, st')"
    and "check d = Inl e"
  shows "stage_process loads model max_retries agent check st = (Inl (ProcessFailed agent e), st')"
  using assms by (simp add: stage_process_def)

text \<open>
  In \<open>process_async\<close> the validation is inside the \<open>try\<close> of the retry loop: when every
  reply parses to a record that the validation rejects, the model is called \<open>max_retries\<close>
  times.
\<close>

lemma stage_async_loop_validation_failure:
  assumes "nat m = i + Suc k"
    and "\<forall>j. model j = Inr content"
    and "parse_json_with_retry loads (strip content) agent = Inr d"
    and "check d = Inl e"
  shows "stage_async_loop loads True model m agent check [i..<nat m] st =
           (Inl (AsyncRetriesExhausted agent m e),
            st\<lparr>calls := calls st + Suc k, sleeps := sleeps st @ replicate k 500\<rparr>)"
  using assms(1)
proof (induction k arbitrary: i st)
  case 0
  then have up: "[i..<nat m] = [i]" by simp
  from 0 have last: "int i = m - 1" by linarith
  show ?case
    using last assms(2-4) by (simp add: up call_openai_async_def)
next
  case (Suc k)
  have up: "[i..<nat m] = i # [Suc i..<nat m]" using Suc.prems by (simp add: upt_conv_Cons)
  have notlast: "int i \<noteq> m - 1" using Suc.prems by linarith
  let ?st = "st\<lparr>calls := Suc (calls st), sleeps := sleeps st @ [500]\<rparr>"
  have "nat m = Suc i + Suc k" using Suc.prems by simp
  from Suc.IH[OF this, of ?st]
  show ?case
    using notlast assms(2-4) by (simp add: up call_openai_async_def replicate_append_same)
qed

lemma stage_process_async_validation_failure:
  assumes "1 \<le> m"
    and "\<forall>j. model j = Inr content"
    and "parse_json_with_retry loads (strip content) agent = Inr d"
    and "check d = Inl e"
  shows "stage_process_async loads True model m agent check st =
           (Inl (AsyncRetriesExhausted agent m e),
            st\<lparr>calls := calls st + nat m, sleeps := sleeps st @ replicate (nat m - 1) 500\<rparr>)"
proof -
  from assms(1) obtain k where k: "nat m = 0 + Suc k" by (cases "nat m") auto
  have "stage_async_loop loads True model m agent check [0..<nat m] st =
           (Inl (AsyncRetriesExhausted agent m e),
            st\<lparr>calls := calls st + Suc k, sleeps := sleeps st @ replicate k 500\<rparr>)"
    using k assms(2-4) by (rule stage_async_loop_validation_failure)
  then show ?thesis unfolding stage_process_async_def using k by simp
qed

text \<open>
  Claim C4. A validation failure after a successful parse must not lead to another call of
  the external model. The synchronous entry points behave so (one call); the asynchronous
  entry points of both agents call the model again until the attempts are used up (three
  calls and two pauses for \<open>max_retries = 3\<close>).
\<close>

theorem process_async_retries_validation_failure:
  "discovery_process_async json_loads True (\<lambda>k. Inr ''[{\"name\": \"x\"}]'') 3
     \<lparr>calls = 0, sleeps = []\<rparr>
   = (Inl (AsyncRetriesExhausted ''DiscoveryAgent'' 3 CardsValidationFailed),
      \<lparr>calls = 3, sleeps = [500, 500]\<rparr>)
   \<and> discovery_process json_loads (\<lambda>k. Inr ''[{\"name\": \"x\"}]'') 3
       \<lparr>calls = 0, sleeps = []\<rparr>
     = (Inl (ProcessFailed ''DiscoveryAgent'' CardsValidationFailed),
        \<lparr>calls = 1, sleeps = []\<rparr>)
   \<and> param_processor_process_async json_loads True
       (\<lambda>k. Inr ''{\"normalized_params\": {}, \"aliases\": {}, \"defaults\": {}, \"validation_errors\": []}'')
       3 [(''n'', JObj [(''type'', JStr ''int'')])] \<lparr>calls = 0, sleeps = []\<rparr>
     = (Inl (AsyncRetriesExhausted ''ParamProcessorAgent'' 3 (ParamValidationFailed [''n''])),
        \<lparr>calls = 3, sleeps = [500, 500]\<rparr>)
   \<and> param_processor_process json_loads
       (\<lambda>k. Inr ''{\"normalized_params\": {}, \"aliases\": {}, \"defaults\": {}, \"validation_errors\": []}'')
       3 [(''n'', JObj [(''type'', JStr ''int'')])] \<lparr>calls = 0, sleeps = []\<rparr>
     = (Inl (ProcessFailed ''ParamProcessorAgent'' (ParamValidationFailed [''n''])),
        \<lparr>calls = 1, sleeps = []\<rparr>)"
  by code_simp

section \<open>Properties of the parallel entry point\<close>

lemma load_components_unbound:
  "load_fast
     (store_fast
        (store_fast [(''query'', q), (''registry_data'', r), (''helper_sources'', h),
                     (''component_imports'', c)] ''task_card'' t)
        ''discovery_task'' d)
     ''components'' = Inl (UnboundLocalError ''components'')"
  by (simp add: load_fast_def store_fast_def)

text \<open>
  Claim C9. \<open>generate_quantum_code_parallel\<close> raises on every input, whatever the
  statements after the \<open>gather\<close> call are: when the semantic step raises, with that error;
  when it returns a task card, because \<open>components\<close> is read before its assignment. The
  name \<open>param_norm_task\<close> is bound nowhere. The only calls of the external model are those of
  the semantic step: no discovery or parameter stage is run.
\<close>

theorem parallel_always_raises:
  "generate_quantum_code_parallel loads model max_retries rest
     query registry_data helper_sources component_imports st
   = (Inl (ParallelFailed
            (case fst (semantic_process loads model max_retries st) of
               Inl e \<Rightarrow> e
             | Inr task_card \<Rightarrow> UnboundLocalError ''components'')),
      snd (semantic_process loads model max_retries st))
   \<and> load_global ''param_norm_task'' = Inl (NameError ''param_norm_task'')"
proof
  show "generate_quantum_code_parallel loads model max_retries rest
     query registry_data helper_sources component_imports st
   = (Inl (ParallelFailed
            (case fst (semantic_process loads model max_retries st) of
               Inl e \<Rightarrow> e
             | Inr task_card \<Rightarrow> UnboundLocalError ''components'')),
      snd (semantic_process loads model max_retries st))"
  proof (cases "semantic_process loads model max_retries st")
    case (Pair r st1)
    show ?thesis
    proof (cases r)
      case (Inl e)
      with Pair show ?thesis
        by (simp add: generate_quantum_code_parallel_def parallel_try_body_def)
    next
      case (Inr task_card)
      with Pair show ?thesis
        by (simp add: generate_quantum_code_parallel_def parallel_try_body_def Let_def
                      load_fast_def store_fast_def)
    qed
  qed
  show "load_global ''param_norm_task'' = Inl (NameError ''param_norm_task'')"
    by (simp add: load_global_def module_names_def)
qed

theorem parallel_always_raises_witness:
  "generate_quantum_code_parallel json_loads
     (\<lambda>k. Inr ''{\"domain\": \"spin.tfim\", \"problem\": \"ground state\", \"algorithm\": \"vqe\", \"backend\": \"qiskit\", \"params\": {\"n\": 8}}'')
     3 (\<lambda>locals task st. (Inr (JArr []), st))
     (JStr ''tfim ground state'') (JArr []) (JObj []) (JArr [])
     \<lparr>calls = 0, sleeps = []\<rparr>
   = (Inl (ParallelFailed (UnboundLocalError ''components'')), \<lparr>calls = 1, sleeps = []\<rparr>)"
proof -
  have "semantic_process json_loads
     (\<lambda>k. Inr ''{\"domain\": \"spin.tfim\", \"problem\": \"ground state\", \"algorithm\": \"vqe\", \"backend\": \"qiskit\", \"params\": {\"n\": 8}}'')
     3 \<lparr>calls = 0, sleeps = []\<rparr>
    = (Inr (JObj [(''domain'', JStr ''spin.tfim''), (''problem'', JStr ''ground state''),
                  (''algorithm'', JStr ''vqe''), (''backend'', JStr ''qiskit''),
                  (''params'', JObj [(''n'', JInt 8)])]), \<lparr>calls = 1, sleeps = []\<rparr>)"
    by code_simp
  with parallel_always_raises[of json_loads
     "\<lambda>k. Inr ''{\"domain\": \"spin.tfim\", \"problem\": \"ground state\", \"algorithm\": \"vqe\", \"backend\": \"qiskit\", \"params\": {\"n\": 8}}''"
     3 "\<lambda>locals task st. (Inr (JArr []), st)"
     "JStr ''tfim ground state''" "JArr []" "JObj []" "JArr []" "\<lparr>calls = 0, sleeps = []\<rparr>"]
  show ?thesis by simp
qed

end
